theory Spec2Isabelle
  imports Complex_Main "HOL-Library.AList"
begin

section \<open>Freight simulation: data model\<close>

text \<open>
  Shallow embedding of \<^verbatim>\<open>freight_simulation/models.py\<close> and of the disruption and
  routing operations of \<^verbatim>\<open>freight_simulation/simulation.py\<close>.

  Python numbers (ints and floats) are modelled as exact reals: rounding of IEEE floats
  is not modelled. Python dictionaries whose iteration order matters (the node registry,
  the adjacency of the graph) are association lists read with \<^const>\<open>map_of\<close> and written
  with \<^const>\<open>AList.update\<close>, which keeps the position of an existing key and appends a new
  one, as a Python dict does. Every exception the code can raise is a value of
  \<open>error\<close>; an operation returns \<open>error + result\<close>.
\<close>

datatype error =
    KeyError
  | ValueError
  | RuntimeError
  | ZeroDivisionError
  | NetworkXNoPath
  | NodeNotFound

text \<open>Class \<^verbatim>\<open>Node\<close>. The field \<^verbatim>\<open>id\<close> is called \<open>ident\<close>, \<^verbatim>\<open>type\<close> is
  \<open>node_type\<close>. The list \<^verbatim>\<open>connections\<close> (edges leaving the node) is written at load
  time only and read by none of the operations below; it is left out.\<close>

record node =
  ident :: string
  lat :: real
  lon :: real
  name :: string
  node_type :: string
  country :: "string option"
  delay :: real
  blocked :: bool
  connections_count :: int

text \<open>Class \<^verbatim>\<open>Edge\<close>.\<close>

record edge =
  source :: string
  destination :: string
  mode :: string
  base_duration :: real
  base_emissions :: real
  base_cost :: real
  current_duration :: real
  current_emissions :: real
  current_cost :: real
  weather_impact :: real

text \<open>\<^verbatim>\<open>Edge.update_values\<close>\<close>

definition update_values :: "edge \<Rightarrow> real option \<Rightarrow> edge" where
  "update_values e wi =
     (let e1 = (case wi of None \<Rightarrow> e | Some x \<Rightarrow> e\<lparr>weather_impact := x\<rparr>);
          weather_factor = 1 + weather_impact e1 * 2;
          e2 = e1\<lparr>current_duration := base_duration e1 * weather_factor,
                  current_emissions := base_emissions e1 * weather_factor\<rparr>;
          cost_factor = 1 + weather_impact e2 * (3 / 2)
      in e2\<lparr>current_cost := base_cost e2 * cost_factor\<rparr>)"

text \<open>Class \<^verbatim>\<open>WeatherGrid\<close>: \<^verbatim>\<open>grid\<close> maps a block key to a severity.\<close>

record weather_grid =
  grid_size :: int
  grid :: "(int \<times> int) \<rightharpoonup> real"

text \<open>Python's \<^verbatim>\<open>int(x)\<close> on a float: truncation towards zero.\<close>

definition py_int :: "real \<Rightarrow> int" where
  "py_int x = (if 0 \<le> x then \<lfloor>x\<rfloor> else \<lceil>x\<rceil>)"

text \<open>\<^verbatim>\<open>WeatherGrid.get_block_key\<close>: \<^verbatim>\<open>int(lat / self.grid_size) * self.grid_size\<close>;
  the division raises on a zero grid size.\<close>

definition get_block_key :: "weather_grid \<Rightarrow> real \<Rightarrow> real \<Rightarrow> error + (int \<times> int)" where
  "get_block_key wg la lo =
     (if grid_size wg = 0 then Inl ZeroDivisionError
      else Inr (py_int (la / of_int (grid_size wg)) * grid_size wg,
                py_int (lo / of_int (grid_size wg)) * grid_size wg))"

text \<open>\<^verbatim>\<open>WeatherGrid.set_severity\<close>\<close>

definition set_severity :: "weather_grid \<Rightarrow> real \<Rightarrow> real \<Rightarrow> real \<Rightarrow> error + weather_grid" where
  "set_severity wg la lo severity =
     (if severity < 0 \<or> severity > 1 then Inl ValueError
      else case get_block_key wg la lo of
             Inl err \<Rightarrow> Inl err
           | Inr key \<Rightarrow> Inr (wg\<lparr>grid := (grid wg)(key \<mapsto> severity)\<rparr>))"

text \<open>\<^verbatim>\<open>WeatherGrid.get_severity\<close>\<close>

definition get_severity :: "weather_grid \<Rightarrow> real \<Rightarrow> real \<Rightarrow> error + real" where
  "get_severity wg la lo =
     (case get_block_key wg la lo of
        Inl err \<Rightarrow> Inl err
      | Inr key \<Rightarrow> Inr (case grid wg key of None \<Rightarrow> 0 | Some v \<Rightarrow> v))"

text \<open>Class \<^verbatim>\<open>PainPoint\<close>.\<close>

record pain_point =
  pp_node_id :: string
  pp_event_type :: string
  pp_name :: string
  pp_delay_increase :: real
  pp_blocked :: bool

text \<open>The attribute dictionary that \<^verbatim>\<open>_build_graph\<close> attaches to an edge of the
  graph.\<close>

record edge_data =
  ed_mode :: string
  ed_duration :: real
  ed_emissions :: real
  ed_cost :: real
  ed_weather_impact :: real

text \<open>The directed graph (\<^verbatim>\<open>nx.DiGraph\<close>) as its adjacency dictionary of
  dictionaries: node \<open>\<mapsto>\<close> (successor \<open>\<mapsto>\<close> attributes). The per-node attribute
  dictionaries are read by no operation below and are left out.\<close>

type_synonym digraph = "(string \<times> (string \<times> edge_data) list) list"

definition add_node :: "digraph \<Rightarrow> string \<Rightarrow> digraph" where
  "add_node g n = (if map_of g n = None then g @ [(n, [])] else g)"

definition add_edge :: "digraph \<Rightarrow> string \<Rightarrow> string \<Rightarrow> edge_data \<Rightarrow> digraph" where
  "add_edge g u v d = AList.map_entry u (AList.update v d) (add_node (add_node g u) v)"

text \<open>\<^verbatim>\<open>G[u][v]\<close>, with \<open>None\<close> where Python raises \<^verbatim>\<open>KeyError\<close>.\<close>

definition graph_edge :: "digraph \<Rightarrow> string \<Rightarrow> string \<Rightarrow> edge_data option" where
  "graph_edge g u v = (case map_of g u of None \<Rightarrow> None | Some succs \<Rightarrow> map_of succs v)"

text \<open>The objective weights (the dictionary \<^verbatim>\<open>self.weights\<close>) and the route returned
  by \<^verbatim>\<open>find_shortest_path\<close>.\<close>

record weights_t =
  w_duration :: real
  w_emissions :: real
  w_cost :: real

record route_edge =
  re_source :: string
  re_destination :: string
  re_mode :: string
  re_duration :: real
  re_emissions :: real
  re_cost :: real

record metrics =
  m_duration :: real
  m_emissions :: real
  m_cost :: real
  m_total_nodes :: nat

record route =
  r_path :: "string list"
  r_edges :: "route_edge list"
  r_metrics :: metrics

text \<open>Class \<^verbatim>\<open>FreightSimulation\<close>.\<close>

record sim =
  graph :: digraph
  nodes :: "(string \<times> node) list"
  edges :: "edge list"
  weather :: weather_grid
  pain_points :: "pain_point list"
  weights :: weights_t
  current_route :: "route option"
  initialized :: bool

section \<open>Effective-graph builder\<close>

text \<open>The edge loop of \<^verbatim>\<open>_build_graph\<close>. It returns the edges with their current
  values updated and the graph. The test \<^verbatim>\<open>src.blocked or dst.blocked\<close> short-circuits,
  so the destination is looked up only when the source is not blocked.\<close>

fun build_edges ::
  "(string \<times> node) list \<Rightarrow> weather_grid \<Rightarrow> edge list \<Rightarrow> digraph \<Rightarrow> error + (edge list \<times> digraph)"
where
  "build_edges ns wg [] g = Inr ([], g)"
| "build_edges ns wg (e # es) g =
     (case map_of ns (source e) of
        None \<Rightarrow> Inl KeyError
      | Some src \<Rightarrow>
          if blocked src then
            (case build_edges ns wg es g of
               Inl err \<Rightarrow> Inl err
             | Inr (es', g') \<Rightarrow> Inr (e # es', g'))
          else
            (case map_of ns (destination e) of
               None \<Rightarrow> Inl KeyError
             | Some dst \<Rightarrow>
                 if blocked dst then
                   (case build_edges ns wg es g of
                      Inl err \<Rightarrow> Inl err
                    | Inr (es', g') \<Rightarrow> Inr (e # es', g'))
                 else
                   (case get_severity wg ((lat src + lat dst) / 2) ((lon src + lon dst) / 2) of
                      Inl err \<Rightarrow> Inl err
                    | Inr wi \<Rightarrow>
                        let e' = update_values e (Some wi);
                            d = \<lparr>ed_mode = mode e',
                                 ed_duration = current_duration e' + delay src,
                                 ed_emissions = current_emissions e',
                                 ed_cost = current_cost e',
                                 ed_weather_impact = weather_impact e'\<rparr>
                        in (case build_edges ns wg es (add_edge g (source e) (destination e) d) of
                              Inl err \<Rightarrow> Inl err
                            | Inr (es', g') \<Rightarrow> Inr (e' # es', g')))))"

text \<open>\<^verbatim>\<open>FreightSimulation._build_graph\<close>: clear, add all nodes, then the edges.\<close>

definition build_graph :: "sim \<Rightarrow> error + sim" where
  "build_graph s =
     (case build_edges (nodes s) (weather s) (edges s) (fold (\<lambda>n g. add_node g n) (map fst (nodes s)) []) of
        Inl err \<Rightarrow> Inl err
      | Inr (es, g) \<Rightarrow> Inr (s\<lparr>graph := g, edges := es\<rparr>))"

section \<open>Disruption overlay\<close>

text \<open>\<^verbatim>\<open>FreightSimulation.update_weather\<close>\<close>

definition update_weather :: "sim \<Rightarrow> real \<Rightarrow> real \<Rightarrow> real \<Rightarrow> error + sim" where
  "update_weather s la lo severity =
     (case set_severity (weather s) la lo severity of
        Inl err \<Rightarrow> Inl err
      | Inr wg \<Rightarrow> build_graph (s\<lparr>weather := wg\<rparr>))"

text \<open>\<^verbatim>\<open>FreightSimulation.update_port_delay\<close>: an unknown node id is ignored.\<close>

definition update_port_delay :: "sim \<Rightarrow> string \<Rightarrow> real \<Rightarrow> error + sim" where
  "update_port_delay s nid delay_hours =
     (case map_of (nodes s) nid of
        None \<Rightarrow> Inr s
      | Some n \<Rightarrow>
          build_graph (s\<lparr>nodes := AList.update nid (n\<lparr>delay := max 0 (min 24 delay_hours)\<rparr>) (nodes s)\<rparr>))"

text \<open>\<^verbatim>\<open>FreightSimulation.add_pain_point\<close>: the returned flag is the Python return
  value.\<close>

definition add_pain_point ::
  "sim \<Rightarrow> string \<Rightarrow> string \<Rightarrow> string \<Rightarrow> real \<Rightarrow> bool \<Rightarrow> error + (bool \<times> sim)"
where
  "add_pain_point s nid event_type nm delay_increase blk =
     (case map_of (nodes s) nid of
        None \<Rightarrow> Inr (False, s)
      | Some n \<Rightarrow>
          let pp = \<lparr>pp_node_id = nid, pp_event_type = event_type, pp_name = nm,
                    pp_delay_increase = delay_increase, pp_blocked = blk\<rparr>;
              s1 = s\<lparr>pain_points := pain_points s @ [pp]\<rparr>;
              n1 = n\<lparr>delay := delay n + delay_increase\<rparr>;
              n2 = n1\<lparr>blocked := blk\<rparr>;
              s2 = s1\<lparr>nodes := AList.update nid n2 (nodes s1)\<rparr>
          in (case build_graph s2 of
                Inl err \<Rightarrow> Inl err
              | Inr s3 \<Rightarrow> Inr (True, s3)))"

text \<open>\<^verbatim>\<open>FreightSimulation.remove_pain_point\<close>: \<^verbatim>\<open>pop(index)\<close> for an index in range, the
  delay subtracted, the blocked flag reset and set again when a remaining pain point of
  the node blocks (the \<^verbatim>\<open>for ... break\<close> loop is \<^const>\<open>list_ex\<close>).\<close>

definition remove_pain_point :: "sim \<Rightarrow> int \<Rightarrow> error + (bool \<times> sim)" where
  "remove_pain_point s index =
     (if 0 \<le> index \<and> index < int (length (pain_points s)) then
        let i = nat index;
            pp = pain_points s ! i;
            s1 = s\<lparr>pain_points := take i (pain_points s) @ drop (Suc i) (pain_points s)\<rparr>;
            nid = pp_node_id pp
        in (case map_of (nodes s1) nid of
              None \<Rightarrow> Inl KeyError
            | Some n \<Rightarrow>
                let n1 = n\<lparr>delay := delay n - pp_delay_increase pp\<rparr>;
                    n2 = n1\<lparr>blocked := False\<rparr>;
                    n3 = (if list_ex (\<lambda>q. pp_node_id q = nid \<and> pp_blocked q) (pain_points s1)
                          then n2\<lparr>blocked := True\<rparr> else n2);
                    s2 = s1\<lparr>nodes := AList.update nid n3 (nodes s1)\<rparr>
                in (case build_graph s2 of
                      Inl err \<Rightarrow> Inl err
                    | Inr s3 \<Rightarrow> Inr (True, s3)))
      else Inr (False, s))"

text \<open>\<^verbatim>\<open>FreightSimulation.update_weights\<close>: an argument \<^verbatim>\<open>None\<close> keeps the stored
  weight; the weights are divided by their sum only when the sum is positive.\<close>

definition update_weights :: "sim \<Rightarrow> real option \<Rightarrow> real option \<Rightarrow> real option \<Rightarrow> sim" where
  "update_weights s dur emi cst =
     (let w0 = weights s;
          w1 = (case dur of None \<Rightarrow> w0 | Some x \<Rightarrow> w0\<lparr>w_duration := x\<rparr>);
          w2 = (case emi of None \<Rightarrow> w1 | Some x \<Rightarrow> w1\<lparr>w_emissions := x\<rparr>);
          w3 = (case cst of None \<Rightarrow> w2 | Some x \<Rightarrow> w2\<lparr>w_cost := x\<rparr>);
          total = w_duration w3 + w_emissions w3 + w_cost w3
      in if total > 0
         then s\<lparr>weights := \<lparr>w_duration = w_duration w3 / total,
                             w_emissions = w_emissions w3 / total,
                             w_cost = w_cost w3 / total\<rparr>\<rparr>
         else s\<lparr>weights := w3\<rparr>)"

section \<open>Router\<close>

text \<open>The nested function \<^verbatim>\<open>weight_function\<close> of \<^verbatim>\<open>find_shortest_path\<close>, with the
  objective weights it closes over as first argument.\<close>

definition weight_function :: "weights_t \<Rightarrow> string \<Rightarrow> string \<Rightarrow> edge_data \<Rightarrow> real" where
  "weight_function ws u v d =
     (let max_duration = 100;
          max_emissions = 1000;
          max_cost = 5000;
          norm_duration = ed_duration d / max_duration;
          norm_emissions = ed_emissions d / max_emissions;
          norm_cost = ed_cost d / max_cost
      in w_duration ws * norm_duration + w_emissions ws * norm_emissions + w_cost ws * norm_cost)"

subsection \<open>The library search\<close>

text \<open>
  Modelled from the spec: \<^verbatim>\<open>nx.dijkstra_path\<close> is a function of the networkx library,
  which \<^verbatim>\<open>find_shortest_path\<close> calls and which is not part of the repository. The
  specification names it a single-source shortest-path search (Dijkstra) over the
  effective graph with a scalar edge weight. The model follows the library's algorithm:
  a dictionary \<^verbatim>\<open>dist\<close> of final distances (\<open>dists\<close> below), a dictionary \<open>seen\<close> of
  tentative distances, a dictionary \<open>paths\<close> of the path found to each seen node, and a
  priority queue
  \<open>fringe\<close> of triples (distance, insertion counter, node), from which the least triple
  is popped; an entry whose node is already final is skipped, the search stops when the
  target becomes final, and a shorter route to a final node raises \<^verbatim>\<open>ValueError\<close>.
  The binary heap is modelled by the list of its entries, and popping by removing the least
  entry in the order on (distance, counter); counters are unique, so nodes are never
  compared.
\<close>

type_synonym heap_entry = "real \<times> nat \<times> string"

type_synonym weight_fn = "string \<Rightarrow> string \<Rightarrow> edge_data \<Rightarrow> real"

text \<open>Modelled from the spec: the order of the priority queue of the library search, on
  (distance, insertion counter), and the least entry of a non-empty queue.\<close>

definition entry_le :: "heap_entry \<Rightarrow> heap_entry \<Rightarrow> bool" where
  "entry_le a b = (fst a < fst b \<or> (fst a = fst b \<and> fst (snd a) \<le> fst (snd b)))"

fun heap_min :: "heap_entry \<Rightarrow> heap_entry list \<Rightarrow> heap_entry" where
  "heap_min x [] = x"
| "heap_min x (y # ys) = heap_min (if entry_le x y then x else y) ys"

text \<open>Modelled from the spec: the dictionaries \<open>seen\<close> and \<open>paths\<close>, the queue and the
  counter of the library search.\<close>

record frontier =
  seen :: "string \<rightharpoonup> real"
  paths :: "string \<rightharpoonup> string list"
  fringe :: "heap_entry list"
  counter :: nat

text \<open>Modelled from the spec: the loop of the library search over the successors of the
  node \<open>v\<close> that has just become final with distance \<open>dv\<close>.\<close>

fun relax ::
  "weight_fn \<Rightarrow> (string \<rightharpoonup> real) \<Rightarrow> string \<Rightarrow> real \<Rightarrow> (string \<times> edge_data) list \<Rightarrow> frontier
     \<Rightarrow> error + frontier"
where
  "relax w dists v dv [] fr = Inr fr"
| "relax w dists v dv ((u, e) # rest) fr =
     (let vu_dist = dv + w v u e in
      case dists u of
        Some u_dist \<Rightarrow>
          if vu_dist < u_dist then Inl ValueError else relax w dists v dv rest fr
      | None \<Rightarrow>
          if (case seen fr u of None \<Rightarrow> True | Some su \<Rightarrow> vu_dist < su) then
            (case paths fr v of
               None \<Rightarrow> Inl KeyError
             | Some pv \<Rightarrow>
                 relax w dists v dv rest
                   (fr\<lparr>seen := (seen fr)(u \<mapsto> vu_dist),
                       fringe := fringe fr @ [(vu_dist, counter fr, u)],
                       counter := Suc (counter fr),
                       paths := (paths fr)(u \<mapsto> pv @ [u])\<rparr>))
          else relax w dists v dv rest fr)"

text \<open>Modelled from the spec: the \<^verbatim>\<open>while fringe\<close> loop of the library search.
  \<^verbatim>\<open>G_succ[v]\<close> raises \<^verbatim>\<open>KeyError\<close> for a node that is not in the graph.\<close>

function dijkstra_loop ::
  "digraph \<Rightarrow> weight_fn \<Rightarrow> string \<Rightarrow> (string \<rightharpoonup> real) \<Rightarrow> frontier
     \<Rightarrow> error + ((string \<rightharpoonup> real) \<times> frontier)"
where
  "dijkstra_loop g w target dists fr =
     (case fringe fr of
        [] \<Rightarrow> Inr (dists, fr)
      | h # t \<Rightarrow>
          (case heap_min h t of
             (d, c, v) \<Rightarrow>
               if dists v \<noteq> None then
                 dijkstra_loop g w target dists (fr\<lparr>fringe := remove1 (d, c, v) (h # t)\<rparr>)
               else if v = target then
                 Inr (dists(v \<mapsto> d), fr\<lparr>fringe := remove1 (d, c, v) (h # t)\<rparr>)
               else
                 (case map_of g v of
                    None \<Rightarrow> Inl KeyError
                  | Some succs \<Rightarrow>
                      (case relax w (dists(v \<mapsto> d)) v d succs
                              (fr\<lparr>fringe := remove1 (d, c, v) (h # t)\<rparr>) of
                         Inl err \<Rightarrow> Inl err
                       | Inr fr2 \<Rightarrow> dijkstra_loop g w target (dists(v \<mapsto> d)) fr2))))"
  by pat_completeness auto
termination
proof (relation "measures [\<lambda>(g, w, target, dists, fr). length (filter (\<lambda>n. dists n = None) (map fst g)),
                          \<lambda>(g, w, target, dists, fr). length (fringe fr)]")
  show "wf (measures [\<lambda>(g, w, target, dists, fr). length (filter (\<lambda>n. dists n = None) (map fst g)),
                     \<lambda>(g, w, target, dists, fr). length (fringe fr)])"
    by simp
next
  fix g :: digraph and w :: weight_fn and target :: string and dists :: "string \<rightharpoonup> real"
    and fr :: frontier and h t d y c v
  assume fr: "fringe fr = h # t" and x: "(d, y) = heap_min h t" "(c, v) = y"
  have "heap_min a ys \<in> set (a # ys)" for a ys
    by (induction ys arbitrary: a) auto
  from this [of h t] x have "(d, c, v) \<in> set (h # t)"
    by metis
  then have "length (remove1 (d, c, v) (h # t)) < length (fringe fr)"
    unfolding fr by (simp only: length_remove1 if_True) simp
  then show "((g, w, target, dists, fr\<lparr>fringe := remove1 (d, c, v) (h # t)\<rparr>), (g, w, target, dists, fr))
      \<in> measures [\<lambda>(g, w, target, dists, fr). length (filter (\<lambda>n. dists n = None) (map fst g)),
                    \<lambda>(g, w, target, dists, fr). length (fringe fr)]"
    by simp
next
  fix g :: digraph and w :: weight_fn and target :: string and dists :: "string \<rightharpoonup> real"
    and fr :: frontier and d v succs fr2
  assume unset: "\<not> dists v \<noteq> None" and adj: "map_of g v = Some succs"
  have dec: "a \<in> set xs \<Longrightarrow> dists a = None \<Longrightarrow>
      length (filter (\<lambda>n. (dists(a \<mapsto> b)) n = None) xs) < length (filter (\<lambda>n. dists n = None) xs)"
    for a b and xs :: "string list"
  proof (induction xs)
    case Nil
    then show ?case by simp
  next
    case (Cons z zs)
    have le: "length (filter (\<lambda>n. (dists(a \<mapsto> b)) n = None) zs) \<le> length (filter (\<lambda>n. dists n = None) zs)"
      by (induction zs) auto
    show ?case
    proof (cases "z = a")
      case True
      with Cons.prems le show ?thesis by (simp add: less_Suc_eq_le)
    next
      case False
      with Cons show ?thesis by auto
    qed
  qed
  from adj have "v \<in> set (map fst g)"
    by (metis map_of_eq_None_iff option.distinct(1) set_map)
  with unset dec [of v "map fst g" d]
  show "((g, w, target, dists(v \<mapsto> d), fr2), (g, w, target, dists, fr))
      \<in> measures [\<lambda>(g, w, target, dists, fr). length (filter (\<lambda>n. dists n = None) (map fst g)),
                    \<lambda>(g, w, target, dists, fr). length (fringe fr)]"
    by simp
qed

text \<open>Modelled from the spec: \<^verbatim>\<open>nx.dijkstra_path\<close> of the networkx library for one
  source. The source must be a node of the graph, the path from a node to itself is that
  node alone, and a target that never becomes final raises \<^verbatim>\<open>NetworkXNoPath\<close>.\<close>

definition dijkstra_path :: "digraph \<Rightarrow> string \<Rightarrow> string \<Rightarrow> weight_fn \<Rightarrow> error + string list" where
  "dijkstra_path g src target w =
     (if map_of g src = None then Inl NodeNotFound
      else if target = src then Inr [target]
      else
        (case dijkstra_loop g w target Map.empty
                \<lparr>seen = [src \<mapsto> 0], paths = [src \<mapsto> [src]],
                 fringe = [(0, 0, src)], counter = 1\<rparr> of
           Inl err \<Rightarrow> Inl err
         | Inr (dists, fr) \<Rightarrow>
             (case dists target of
                None \<Rightarrow> Inl NetworkXNoPath
              | Some _ \<Rightarrow>
                  (case paths fr target of
                     None \<Rightarrow> Inl NetworkXNoPath
                   | Some p \<Rightarrow> Inr p))))"

subsection \<open>The query\<close>

text \<open>The metrics loop of \<^verbatim>\<open>find_shortest_path\<close> over consecutive nodes of the path;
  the accumulator is (duration, emissions, cost, edges).\<close>

fun path_metrics ::
  "digraph \<Rightarrow> string list \<Rightarrow> real \<times> real \<times> real \<times> route_edge list
     \<Rightarrow> error + (real \<times> real \<times> real \<times> route_edge list)"
where
  "path_metrics g (u # v # rest) (dur, emi, cst, es) =
     (case graph_edge g u v of
        None \<Rightarrow> Inl KeyError
      | Some d \<Rightarrow>
          path_metrics g (v # rest)
            (dur + ed_duration d, emi + ed_emissions d, cst + ed_cost d,
             es @ [\<lparr>re_source = u, re_destination = v, re_mode = ed_mode d,
                    re_duration = ed_duration d, re_emissions = ed_emissions d,
                    re_cost = ed_cost d\<rparr>]))"
| "path_metrics g p acc = Inr acc"

text \<open>\<^verbatim>\<open>FreightSimulation.find_shortest_path\<close>. The result \<open>Inr (None, s)\<close> is the Python
  return value \<^verbatim>\<open>None\<close>; \<^verbatim>\<open>NetworkXNoPath\<close> and \<^verbatim>\<open>NodeNotFound\<close> are caught and give
  \<^verbatim>\<open>None\<close> too, any other exception propagates.\<close>

definition find_shortest_path :: "sim \<Rightarrow> string \<Rightarrow> string \<Rightarrow> error + (route option \<times> sim)" where
  "find_shortest_path s source_id target_id =
     (if \<not> initialized s then Inl RuntimeError
      else
        (case map_of (nodes s) source_id of
           None \<Rightarrow> Inr (None, s)
         | Some sn \<Rightarrow>
             (case map_of (nodes s) target_id of
                None \<Rightarrow> Inr (None, s)
              | Some tn \<Rightarrow>
                  if blocked sn \<or> blocked tn then Inr (None, s)
                  else
                    (case dijkstra_path (graph s) source_id target_id (weight_function (weights s)) of
                       Inl err \<Rightarrow>
                         if err = NetworkXNoPath \<or> err = NodeNotFound then Inr (None, s)
                         else Inl err
                     | Inr path \<Rightarrow>
                         (case path_metrics (graph s) path (0, 0, 0, []) of
                            Inl err \<Rightarrow> Inl err
                          | Inr (dur, emi, cst, es) \<Rightarrow>
                              let rt = \<lparr>r_path = path, r_edges = es,
                                        r_metrics = \<lparr>m_duration = dur, m_emissions = emi,
                                                     m_cost = cst, m_total_nodes = length path\<rparr>\<rparr>
                              in Inr (Some rt, s\<lparr>current_route := Some rt\<rparr>))))))"

subsection \<open>Paths of the effective graph and their scalar weight\<close>

text \<open>A path is a non-empty list of nodes in which each node is joined to the next by an
  edge of the graph; its weight is the sum of the weights of these edges.\<close>

fun is_path :: "digraph \<Rightarrow> string list \<Rightarrow> bool" where
  "is_path g [] = False"
| "is_path g [x] = True"
| "is_path g (x # y # r) = (graph_edge g x y \<noteq> None \<and> is_path g (y # r))"

definition edge_weight :: "digraph \<Rightarrow> weight_fn \<Rightarrow> string \<Rightarrow> string \<Rightarrow> real" where
  "edge_weight g w x y = (case graph_edge g x y of None \<Rightarrow> 0 | Some d \<Rightarrow> w x y d)"

fun path_weight :: "digraph \<Rightarrow> weight_fn \<Rightarrow> string list \<Rightarrow> real" where
  "path_weight g w (x # y # r) = edge_weight g w x y + path_weight g w (y # r)"
| "path_weight g w p = 0"

definition st_path :: "digraph \<Rightarrow> string \<Rightarrow> string \<Rightarrow> string list \<Rightarrow> bool" where
  "st_path g a b p = (is_path g p \<and> hd p = a \<and> last p = b)"

section \<open>Construction and example networks\<close>

text \<open>\<^verbatim>\<open>Node.__init__\<close>, \<^verbatim>\<open>Edge.__init__\<close> and \<^verbatim>\<open>FreightSimulation.__init__\<close>.\<close>

definition new_node :: "string \<Rightarrow> real \<Rightarrow> real \<Rightarrow> string \<Rightarrow> string \<Rightarrow> node" where
  "new_node i la lo nm ty =
     \<lparr>ident = i, lat = la, lon = lo, name = nm, node_type = ty, country = None,
      delay = 0, blocked = False, connections_count = 0\<rparr>"

definition new_edge :: "string \<Rightarrow> string \<Rightarrow> string \<Rightarrow> real \<Rightarrow> real \<Rightarrow> real \<Rightarrow> edge" where
  "new_edge src dst md dur emi cst =
     \<lparr>source = src, destination = dst, mode = md,
      base_duration = dur, base_emissions = emi, base_cost = cst,
      current_duration = dur, current_emissions = emi, current_cost = cst,
      weather_impact = 0\<rparr>"

definition new_sim :: sim where
  "new_sim =
     \<lparr>graph = [], nodes = [], edges = [],
      weather = \<lparr>grid_size = 5, grid = Map.empty\<rparr>,
      pain_points = [],
      weights = \<lparr>w_duration = 4 / 10, w_emissions = 3 / 10, w_cost = 3 / 10\<rparr>,
      current_route = None, initialized = False\<rparr>"

text \<open>\<^verbatim>\<open>FreightSimulation.initialize\<close>, with the nodes and edges that the two loaders
  read from files given as arguments.\<close>

definition initialize :: "sim \<Rightarrow> (string \<times> node) list \<Rightarrow> edge list \<Rightarrow> error + sim" where
  "initialize s ns es =
     (case build_graph (s\<lparr>nodes := ns, edges := es\<rparr>) of
        Inl err \<Rightarrow> Inl err
      | Inr s1 \<Rightarrow> Inr (s1\<lparr>initialized := True\<rparr>))"

text \<open>A network of three seaports with legs A-B, B-C and A-C, used to run the operations
  on concrete inputs.\<close>

definition abc_nodes :: "(string \<times> node) list" where
  "abc_nodes =
     [(''A'', new_node ''A'' 0 0 ''Port A'' ''seaport''),
      (''B'', new_node ''B'' 0 1 ''Port B'' ''seaport''),
      (''C'', new_node ''C'' 0 2 ''Port C'' ''seaport'')]"

definition abc_edges :: "edge list" where
  "abc_edges =
     [new_edge ''A'' ''C'' ''ship'' 100 1000 1,
      new_edge ''A'' ''B'' ''ship'' 100 2000 1,
      new_edge ''B'' ''C'' ''ship'' 1000 1000 1]"

section \<open>Reachable states\<close>

text \<open>A state is well formed when the grid size is not zero, every edge joins registered
  nodes and every pain point names a registered node. The loaders create edges between
  registered nodes only and \<^verbatim>\<open>add_pain_point\<close> rejects an unknown node, so the states
  of a running simulation are well formed.\<close>

definition wf_sim :: "sim \<Rightarrow> bool" where
  "wf_sim s =
     (grid_size (weather s) \<noteq> 0 \<and>
      list_all (\<lambda>e. map_of (nodes s) (source e) \<noteq> None \<and> map_of (nodes s) (destination e) \<noteq> None) (edges s) \<and>
      list_all (\<lambda>q. map_of (nodes s) (pp_node_id q) \<noteq> None) (pain_points s))"

text \<open>The mutating operations as one step function (the Boolean the pain-point
  operations return is dropped), and the states reached from an initialised simulation by
  operations that return.\<close>

datatype mutation =
    UpdateWeather real real real
  | UpdatePortDelay string real
  | AddPainPoint string string string real bool
  | RemovePainPoint int
  | UpdateWeights "real option" "real option" "real option"

fun apply_mutation :: "sim \<Rightarrow> mutation \<Rightarrow> error + sim" where
  "apply_mutation s (UpdateWeather la lo severity) = update_weather s la lo severity"
| "apply_mutation s (UpdatePortDelay nid h) = update_port_delay s nid h"
| "apply_mutation s (AddPainPoint nid ev nm d b) = map_sum id snd (add_pain_point s nid ev nm d b)"
| "apply_mutation s (RemovePainPoint i) = map_sum id snd (remove_pain_point s i)"
| "apply_mutation s (UpdateWeights d e c) = Inr (update_weights s d e c)"

inductive reachable :: "sim \<Rightarrow> bool" where
  init: "initialize new_sim ns es = Inr s \<Longrightarrow> reachable s"
| step: "reachable s \<Longrightarrow> apply_mutation s m = Inr s' \<Longrightarrow> reachable s'"

text \<open>The three-port network initialised, then with a blocking strike at B, then with a
  second blocking pain point at B.\<close>

definition abc_sim :: sim where
  "abc_sim = (case initialize new_sim abc_nodes abc_edges of Inr s \<Rightarrow> s | Inl err \<Rightarrow> new_sim)"

definition abc_strike :: sim where
  "abc_strike =
     (case add_pain_point abc_sim ''B'' ''strike'' ''Dock strike'' 0 True of
        Inr (ok, s) \<Rightarrow> s | Inl err \<Rightarrow> abc_sim)"

definition abc_strike_queue :: sim where
  "abc_strike_queue =
     (case add_pain_point abc_strike ''B'' ''congestion'' ''Queue'' 2 True of
        Inr (ok, s) \<Rightarrow> s | Inl err \<Rightarrow> abc_strike)"

section \<open>Shortest paths: predicates of the correctness proof\<close>

text \<open>Every edge of the effective graph has a non-negative scalar weight under the
  current objective weights; every adjacency dictionary has distinct keys, as a Python
  dictionary has.\<close>

definition nonneg_weights :: "sim \<Rightarrow> bool" where
  "nonneg_weights s =
     list_all (\<lambda>(u, succs). list_all (\<lambda>(v, d). 0 \<le> weight_function (weights s) u v d) succs) (graph s)"

definition dict_graph :: "digraph \<Rightarrow> bool" where
  "dict_graph g = list_all (\<lambda>(u, succs). distinct (map fst succs)) g"

text \<open>The invariant of the search at the head of the \<^verbatim>\<open>while\<close> loop, for the source
  \<open>src\<close>: a final distance is the tentative one; a tentative distance is the weight of the
  stored path, which runs from the source to the node; a seen node that is not final has a
  queue entry with its tentative distance; a queue entry is not below the tentative
  distance of its node; the successors of a final node outside \<open>ex\<close> have been relaxed;
  no final distance exceeds a key of the queue; and the source keeps distance 0. The set
  \<open>ex\<close> holds the node whose successors are being relaxed.\<close>

definition dinv ::
  "digraph \<Rightarrow> weight_fn \<Rightarrow> string \<Rightarrow> string set \<Rightarrow> (string \<rightharpoonup> real) \<Rightarrow> frontier \<Rightarrow> bool"
where
  "dinv g w src ex dists fr \<longleftrightarrow>
     (\<forall>v d. dists v = Some d \<longrightarrow> seen fr v = Some d) \<and>
     (\<forall>u d. seen fr u = Some d \<longrightarrow>
        (\<exists>p. paths fr u = Some p \<and> st_path g src u p \<and> path_weight g w p = d)) \<and>
     (\<forall>u d. seen fr u = Some d \<and> dists u = None \<longrightarrow> (\<exists>c. (d, c, u) \<in> set (fringe fr))) \<and>
     (\<forall>d c u. (d, c, u) \<in> set (fringe fr) \<longrightarrow> (\<exists>d'. seen fr u = Some d' \<and> d' \<le> d)) \<and>
     (\<forall>v dv u e. dists v = Some dv \<and> v \<notin> ex \<and> graph_edge g v u = Some e \<longrightarrow>
        (\<exists>du. seen fr u = Some du \<and> du \<le> dv + w v u e)) \<and>
     (\<forall>v dv d c u. dists v = Some dv \<and> (d, c, u) \<in> set (fringe fr) \<longrightarrow> dv \<le> d) \<and>
     seen fr src = Some 0"

text \<open>The three-port network with the objective weights set to (-1, 3, 0).\<close>

definition abc_neg :: sim where
  "abc_neg = update_weights abc_sim (Some (- 1)) (Some 3) (Some 0)"


section \<open>The graph and its builder: auxiliary facts\<close>

lemma map_of_add_node:
  "map_of (add_node g n) x = (if x = n \<and> map_of g n = None then Some [] else map_of g x)"
  by (auto simp: add_node_def map_add_def split: option.splits)

lemma graph_edge_add_node: "graph_edge (add_node g n) x y = graph_edge g x y"
  by (simp add: graph_edge_def map_of_add_node)

lemma graph_edge_add_edge:
  "graph_edge (add_edge g u v d) x y = (if x = u \<and> y = v then Some d else graph_edge g x y)"
  by (auto simp: graph_edge_def add_edge_def map_of_map_entry map_of_add_node update_conv'
           split: option.splits)

lemma map_of_add_edge_dom:
  "map_of (add_edge g u v d) x \<noteq> None \<longleftrightarrow> x = u \<or> x = v \<or> map_of g x \<noteq> None"
  by (auto simp: add_edge_def map_of_map_entry map_of_add_node split: option.splits)

lemma build_edges_edge:
  "build_edges ns wg es g = Inr (es', g') \<Longrightarrow> graph_edge g' u v = Some d \<Longrightarrow>
     graph_edge g u v = Some d \<or>
     (\<exists>nu nv. map_of ns u = Some nu \<and> \<not> blocked nu \<and> map_of ns v = Some nv \<and> \<not> blocked nv)"
proof (induction es arbitrary: g es' g')
  case Nil
  then show ?case by simp
next
  case (Cons e es)
  show ?case
  proof (cases "map_of ns (source e)")
    case None
    with Cons.prems show ?thesis by simp
  next
    case src: (Some sn)
    show ?thesis
    proof (cases "blocked sn")
      case True
      with src Cons.prems Cons.IH show ?thesis
        by (auto split: sum.splits)
    next
      case nb: False
      show ?thesis
      proof (cases "map_of ns (destination e)")
        case None
        with src nb Cons.prems show ?thesis by simp
      next
        case dst: (Some dn)
        show ?thesis
        proof (cases "blocked dn")
          case True
          with src nb dst Cons.prems Cons.IH show ?thesis
            by (auto split: sum.splits)
        next
          case nbd: False
          from src nb dst nbd Cons.prems obtain wi es1 d1 where
            rec: "build_edges ns wg es (add_edge g (source e) (destination e) d1) = Inr (es1, g')"
            by (auto simp: Let_def split: sum.splits)
          from Cons.IH [OF rec Cons.prems(2)] src nb dst nbd show ?thesis
            by (auto simp: graph_edge_add_edge split: if_splits)
        qed
      qed
    qed
  qed
qed

lemma build_edges_nodes:
  "build_edges ns wg es g = Inr (es', g') \<Longrightarrow> map_of g a \<noteq> None \<Longrightarrow> map_of g' a \<noteq> None"
proof (induction es arbitrary: g es' g')
  case Nil
  then show ?case by simp
next
  case (Cons e es)
  from Cons.prems(1) consider
      (skip) es1 where "build_edges ns wg es g = Inr (es1, g')"
    | (add) es1 d1 where "build_edges ns wg es (add_edge g (source e) (destination e) d1) = Inr (es1, g')"
    by (auto simp: Let_def split: option.splits if_splits sum.splits)
  then show ?case
  proof cases
    case skip
    from Cons.IH [OF skip Cons.prems(2)] show ?thesis .
  next
    case add
    from Cons.prems(2) have "map_of (add_edge g (source e) (destination e) d1) a \<noteq> None"
      using map_of_add_edge_dom [of g "source e" "destination e" d1 a] by blast
    from Cons.IH [OF add this] show ?thesis .
  qed
qed


lemma build_edges_total:
  "grid_size wg \<noteq> 0 \<Longrightarrow>
   list_all (\<lambda>e. map_of ns (source e) \<noteq> None \<and> map_of ns (destination e) \<noteq> None) es \<Longrightarrow>
   \<exists>r. build_edges ns wg es g = Inr r"
proof (induction es arbitrary: g)
  case Nil
  then show ?case by simp
next
  case (Cons e es)
  then have ih: "\<exists>r. build_edges ns wg es g0 = Inr r" for g0
    by simp
  from Cons.prems obtain sn dn where "map_of ns (source e) = Some sn" "map_of ns (destination e) = Some dn"
    by auto
  moreover obtain wi where "get_severity wg ((lat sn + lat dn) / 2) ((lon sn + lon dn) / 2) = Inr wi"
    using Cons.prems(1) by (auto simp: get_severity_def get_block_key_def)
  moreover have "build_edges ns wg es g0 \<noteq> Inl x" for g0 x
    using ih [of g0] by auto
  ultimately show ?case
    by (auto simp: Let_def split: sum.splits)
qed

lemma build_graph_fields:
  assumes "build_graph s = Inr s'"
  shows "nodes s' = nodes s" and "pain_points s' = pain_points s" and "weights s' = weights s"
    and "weather s' = weather s" and "initialized s' = initialized s"
    and "current_route s' = current_route s"
  using assms by (auto simp: build_graph_def split: sum.splits)

lemma build_graph_total: "wf_sim s \<Longrightarrow> \<exists>s'. build_graph s = Inr s'"
proof -
  assume "wf_sim s"
  then have a: "grid_size (weather s) \<noteq> 0"
    and b: "list_all (\<lambda>e. map_of (nodes s) (source e) \<noteq> None \<and> map_of (nodes s) (destination e) \<noteq> None) (edges s)"
    by (simp_all add: wf_sim_def)
  from build_edges_total [OF a b] obtain r where
    "build_edges (nodes s) (weather s) (edges s) (fold (\<lambda>n g. add_node g n) (map fst (nodes s)) []) = Inr r"
    by blast
  then show ?thesis
    by (cases r) (simp add: build_graph_def)
qed


lemma fold_add_node_dom:
  "map_of (fold (\<lambda>n g. add_node g n) xs g) a \<noteq> None \<longleftrightarrow> a \<in> set xs \<or> map_of g a \<noteq> None"
  by (induction xs arbitrary: g) (auto simp: map_of_add_node)

lemma graph_edge_fold_add_node:
  "graph_edge (fold (\<lambda>n g. add_node g n) xs g) u v = graph_edge g u v"
  by (induction xs arbitrary: g) (auto simp: graph_edge_add_node)

lemma build_graph_has_nodes:
  assumes "build_graph s = Inr s'" and "map_of (nodes s) a \<noteq> None"
  shows "map_of (graph s') a \<noteq> None"
proof -
  from assms(1) obtain es where
    be: "build_edges (nodes s) (weather s) (edges s) (fold (\<lambda>n g. add_node g n) (map fst (nodes s)) []) = Inr (es, graph s')"
    by (auto simp: build_graph_def split: sum.splits)
  from assms(2) have "a \<in> set (map fst (nodes s))"
    by (metis map_of_eq_None_iff set_map)
  then have "map_of (fold (\<lambda>n g. add_node g n) (map fst (nodes s)) []) a \<noteq> None"
    using fold_add_node_dom [of "map fst (nodes s)" "[]" a] by blast
  from build_edges_nodes [OF be this] show ?thesis .
qed

lemma build_graph_unblocked:
  assumes "build_graph s = Inr s'" and "graph_edge (graph s') u v = Some d"
  shows "\<exists>nu nv. map_of (nodes s') u = Some nu \<and> \<not> blocked nu \<and> map_of (nodes s') v = Some nv \<and> \<not> blocked nv"
proof -
  from assms(1) obtain es where
    be: "build_edges (nodes s) (weather s) (edges s) (fold (\<lambda>n g. add_node g n) (map fst (nodes s)) []) = Inr (es, graph s')"
    and ns: "nodes s' = nodes s"
    by (auto simp: build_graph_def split: sum.splits)
  have "graph_edge [] u v = None"
    by (simp add: graph_edge_def)
  then have "graph_edge (fold (\<lambda>n g. add_node g n) (map fst (nodes s)) []) u v = None"
    by (simp only: graph_edge_fold_add_node)
  with build_edges_edge [OF be assms(2)] ns show ?thesis
    by simp
qed


section \<open>Weather grid\<close>

text \<open>
  C6. The claim: for every latitude and longitude, negative ones included, the block key
  is the floor-division quotient of the coordinate by the grid size (times the grid size),
  so that two points share a block exactly when their floor quotients agree. The code
  truncates towards zero instead: latitude -2.5 and latitude 2.5 get the same key 0 on the
  5-degree grid, although their floor quotients are -1 and 0.
\<close>

theorem get_block_key_truncates:
  "get_block_key \<lparr>grid_size = 5, grid = Map.empty\<rparr> (- 5 / 2) 0 = Inr (0, 0) \<and>
   get_block_key \<lparr>grid_size = 5, grid = Map.empty\<rparr> (5 / 2) 0 = Inr (0, 0) \<and>
   \<lfloor>(- 5 / 2) / (5::real)\<rfloor> = - 1 \<and> \<lfloor>(5 / 2) / (5::real)\<rfloor> = 0"
  by code_simp

section \<open>Pain points\<close>

text \<open>
  C2. The claim: after \<^verbatim>\<open>add_pain_point\<close> the blocked flag of the node is the supplied
  flag or the flag before the call. The code stores the supplied flag: at B, blocked by the
  strike, adding a pain point with \<open>blocked = False\<close> returns \<open>True\<close> and leaves B
  unblocked although the strike, still in the list, blocks.
\<close>

theorem add_pain_point_overwrites_blocked:
  "(case add_pain_point abc_strike ''B'' ''congestion'' ''Queue'' 2 False of
      Inl err \<Rightarrow> None
    | Inr (ok, s) \<Rightarrow>
        Some (map_option blocked (map_of (nodes abc_strike) ''B''), ok,
              map_option blocked (map_of (nodes s) ''B''), map pp_blocked (pain_points s)))
   = Some (Some True, True, Some False, [True, False])"
  by code_simp

text \<open>What the code does in general: the flag of the node is the argument.\<close>

lemma add_pain_point_sets_blocked:
  assumes "add_pain_point s nid ev nm d b = Inr (True, s')"
  shows "\<exists>n. map_of (nodes s') nid = Some n \<and> blocked n = b"
  using assms
  by (auto simp: add_pain_point_def Let_def update_conv' split: option.splits sum.splits dest!: build_graph_fields(1))

text \<open>
  C3. For every valid index of the pain-point list of a well-formed state,
  \<^verbatim>\<open>remove_pain_point\<close> returns \<open>True\<close>, removes that entry, and leaves the node the
  entry referred to blocked exactly when one of the remaining pain points of that node has
  its blocked flag set.
\<close>

theorem remove_pain_point_blocked:
  assumes "wf_sim s" and "0 \<le> index" and "index < int (length (pain_points s))"
  shows "\<exists>s' n. remove_pain_point s index = Inr (True, s') \<and>
           pain_points s' = take (nat index) (pain_points s) @ drop (Suc (nat index)) (pain_points s) \<and>
           map_of (nodes s') (pp_node_id (pain_points s ! nat index)) = Some n \<and>
           blocked n = (\<exists>q \<in> set (pain_points s'). pp_node_id q = pp_node_id (pain_points s ! nat index) \<and> pp_blocked q)"
proof -
  define i where "i = nat index"
  define pp where "pp = pain_points s ! i"
  define rest where "rest = take i (pain_points s) @ drop (Suc i) (pain_points s)"
  from assms have i: "i < length (pain_points s)"
    by (simp add: i_def)
  with assms(1) obtain n where n: "map_of (nodes s) (pp_node_id pp) = Some n"
    by (auto simp: wf_sim_def list_all_length pp_def)
  define n3 where "n3 = (if list_ex (\<lambda>q. pp_node_id q = pp_node_id pp \<and> pp_blocked q) rest
      then n\<lparr>delay := delay n - pp_delay_increase pp, blocked := True\<rparr>
      else n\<lparr>delay := delay n - pp_delay_increase pp, blocked := False\<rparr>)"
  define s2 where "s2 = s\<lparr>pain_points := rest, nodes := AList.update (pp_node_id pp) n3 (nodes s)\<rparr>"
  have "set rest \<subseteq> set (pain_points s)"
    unfolding rest_def by (auto dest: in_set_takeD in_set_dropD)
  with assms(1) have "wf_sim s2"
    by (auto simp: wf_sim_def s2_def update_conv' list_all_iff)
  then obtain s3 where s3: "build_graph s2 = Inr s3"
    using build_graph_total by blast
  have run: "remove_pain_point s index = Inr (True, s3)"
  proof (cases "list_ex (\<lambda>q. pp_node_id q = pp_node_id pp \<and> pp_blocked q) rest")
    case True
    with assms(2,3) n s3 show ?thesis
      by (simp add: remove_pain_point_def Let_def i_def [symmetric] pp_def [symmetric]
          rest_def [symmetric] n3_def s2_def)
  next
    case False
    with assms(2,3) n s3 show ?thesis
      by (simp add: remove_pain_point_def Let_def i_def [symmetric] pp_def [symmetric]
          rest_def [symmetric] n3_def s2_def)
  qed
  have "pain_points s3 = rest" "nodes s3 = AList.update (pp_node_id pp) n3 (nodes s)"
    using build_graph_fields(1,2) [OF s3] by (simp_all add: s2_def)
  moreover have "blocked n3 = (\<exists>q \<in> set rest. pp_node_id q = pp_node_id pp \<and> pp_blocked q)"
    by (simp add: n3_def list_ex_iff)
  ultimately show ?thesis
    using run by (simp add: update_conv' i_def [symmetric] pp_def [symmetric] rest_def [symmetric])
qed

theorem remove_pain_point_blocked_witness:
  "wf_sim abc_strike_queue \<and> (0::int) \<le> 1 \<and> 1 < int (length (pain_points abc_strike_queue)) \<and>
   (\<exists>s' n. remove_pain_point abc_strike_queue 1 = Inr (True, s') \<and>
      pain_points s' = take (nat 1) (pain_points abc_strike_queue) @ drop (Suc (nat 1)) (pain_points abc_strike_queue) \<and>
      map_of (nodes s') (pp_node_id (pain_points abc_strike_queue ! nat 1)) = Some n \<and>
      blocked n = (\<exists>q \<in> set (pain_points s'). pp_node_id q = pp_node_id (pain_points abc_strike_queue ! nat 1) \<and> pp_blocked q))"
proof -
  have h1: "wf_sim abc_strike_queue" by code_simp
  have h2: "(0::int) \<le> 1" by simp
  have h3: "1 < int (length (pain_points abc_strike_queue))" by code_simp
  from remove_pain_point_blocked [OF h1 h2 h3] h1 h2 h3 show ?thesis by blast
qed

section \<open>Reachable example states\<close>

lemma abc_sim_init: "initialize new_sim abc_nodes abc_edges = Inr abc_sim"
proof -
  have "case initialize new_sim abc_nodes abc_edges of Inr s \<Rightarrow> True | Inl err \<Rightarrow> False"
    by code_simp
  then show ?thesis
    by (simp add: abc_sim_def split: sum.splits)
qed

lemma abc_strike_step:
  "apply_mutation abc_sim (AddPainPoint ''B'' ''strike'' ''Dock strike'' 0 True) = Inr abc_strike"
proof -
  have "case add_pain_point abc_sim ''B'' ''strike'' ''Dock strike'' 0 True of Inr r \<Rightarrow> True | Inl err \<Rightarrow> False"
    by code_simp
  then show ?thesis
    by (auto simp: abc_strike_def split: sum.splits)
qed

lemma reachable_abc_strike: "reachable abc_strike"
  using reachable.step [OF reachable.init [OF abc_sim_init] abc_strike_step] .


section \<open>Effective graph and blocked nodes\<close>

text \<open>Every mutating operation that returns either leaves the graph and the registry as
  they were or ends in a rebuild of the graph.\<close>

lemma apply_mutation_cases:
  assumes "apply_mutation s m = Inr s'"
  shows "(graph s' = graph s \<and> nodes s' = nodes s) \<or> (\<exists>s0. build_graph s0 = Inr s')"
proof (cases m)
  case (UpdateWeather la lo sev)
  with assms show ?thesis
    by (auto simp: update_weather_def split: sum.splits)
next
  case (UpdatePortDelay nid h)
  with assms show ?thesis
    by (auto simp: update_port_delay_def split: option.splits)
next
  case (AddPainPoint nid ev nm d b)
  with assms show ?thesis
    by (auto simp: add_pain_point_def Let_def split: option.splits sum.splits)
next
  case (RemovePainPoint i)
  with assms show ?thesis
    by (auto simp: remove_pain_point_def Let_def split: option.splits sum.splits if_splits)
next
  case (UpdateWeights d e c)
  with assms show ?thesis
    by (auto simp: update_weights_def Let_def)
qed

text \<open>
  C7. In every state reached from an initialised simulation by the mutating operations
  (weather, node delay, pain points, objective weights), each edge of the effective graph
  joins two registered nodes that are not blocked in that state: an edge with a blocked end
  is absent from the graph, not present with a large weight.
\<close>

theorem effective_graph_excludes_blocked:
  assumes "reachable s" and "graph_edge (graph s) u v = Some d"
  shows "\<exists>nu nv. map_of (nodes s) u = Some nu \<and> \<not> blocked nu \<and>
                 map_of (nodes s) v = Some nv \<and> \<not> blocked nv"
  using assms
proof (induction arbitrary: u v d rule: reachable.induct)
  case (init ns es s)
  from init.hyps obtain s1 where b: "build_graph (new_sim\<lparr>nodes := ns, edges := es\<rparr>) = Inr s1"
    and s: "s = s1\<lparr>initialized := True\<rparr>"
    by (auto simp: initialize_def split: sum.splits)
  from init.prems s have "graph_edge (graph s1) u v = Some d"
    by simp
  from build_graph_unblocked [OF b this] s show ?case
    by simp
next
  case (step s m s')
  from apply_mutation_cases [OF step.hyps(2)] show ?case
  proof
    assume "graph s' = graph s \<and> nodes s' = nodes s"
    with step.IH [of u v d] step.prems show ?thesis
      by simp
  next
    assume "\<exists>s0. build_graph s0 = Inr s'"
    then obtain s0 where "build_graph s0 = Inr s'" ..
    from build_graph_unblocked [OF this step.prems] show ?thesis .
  qed
qed

theorem effective_graph_excludes_blocked_witness:
  "reachable abc_strike \<and>
   graph_edge (graph abc_strike) ''A'' ''C'' =
     Some \<lparr>ed_mode = ''ship'', ed_duration = 100, ed_emissions = 1000, ed_cost = 1,
           ed_weather_impact = 0\<rparr> \<and>
   (\<exists>nu nv. map_of (nodes abc_strike) ''A'' = Some nu \<and> \<not> blocked nu \<and>
            map_of (nodes abc_strike) ''C'' = Some nv \<and> \<not> blocked nv) \<and>
   graph_edge (graph abc_strike) ''A'' ''B'' = None \<and>
   graph_edge (graph abc_strike) ''B'' ''C'' = None"
proof -
  have e: "graph_edge (graph abc_strike) ''A'' ''C'' =
     Some \<lparr>ed_mode = ''ship'', ed_duration = 100, ed_emissions = 1000, ed_cost = 1,
           ed_weather_impact = 0\<rparr>"
    by code_simp
  have n: "graph_edge (graph abc_strike) ''A'' ''B'' = None \<and>
           graph_edge (graph abc_strike) ''B'' ''C'' = None"
    by code_simp
  from effective_graph_excludes_blocked [OF reachable_abc_strike e] reachable_abc_strike e n
  show ?thesis by blast
qed

section \<open>Objective weights\<close>




section \<open>Node delay\<close>




section \<open>Shortest-path query: outcomes\<close>

text \<open>
  C5. The claim: an id absent from the registry makes \<^verbatim>\<open>find_shortest_path\<close> fail with
  an error that differs from the "no route" result. In the code the unknown id Z, the
  unreachable target (no path from C to A) and the blocked target B all give the same
  value, the return value \<open>None\<close>, and none raises.
\<close>

theorem find_shortest_path_unknown_is_none:
  "map_sum id fst (find_shortest_path abc_sim ''Z'' ''A'') = Inr None \<and>
   map_sum id fst (find_shortest_path abc_sim ''C'' ''A'') = Inr None \<and>
   map_sum id fst (find_shortest_path abc_strike ''A'' ''B'') = Inr None"
  by code_simp

text \<open>
  C5, amended. On an initialised simulation, \<^verbatim>\<open>find_shortest_path\<close> with a source or a
  target id absent from the registry returns \<open>None\<close> and leaves the state unchanged.
\<close>

theorem find_shortest_path_unknown_node:
  assumes "initialized s" and "map_of (nodes s) a = None \<or> map_of (nodes s) b = None"
  shows "find_shortest_path s a b = Inr (None, s)"
  using assms by (auto simp: find_shortest_path_def split: option.splits)

theorem find_shortest_path_unknown_node_witness:
  "initialized abc_sim \<and> (map_of (nodes abc_sim) ''Z'' = None \<or> map_of (nodes abc_sim) ''A'' = None) \<and>
   find_shortest_path abc_sim ''Z'' ''A'' = Inr (None, abc_sim)"
proof -
  have h1: "initialized abc_sim" by code_simp
  have h2: "map_of (nodes abc_sim) ''Z'' = None \<or> map_of (nodes abc_sim) ''A'' = None" by code_simp
  from find_shortest_path_unknown_node [OF h1 h2] h1 h2 show ?thesis by blast
qed

text \<open>
  C9. The claim: for every registered node \<open>a\<close> the query from \<open>a\<close> to \<open>a\<close> returns the
  path \<open>[a]\<close>. For the registered node B, blocked by the strike, it returns \<open>None\<close>.
\<close>

theorem find_shortest_path_blocked_self:
  "map_of (nodes abc_strike) ''B'' \<noteq> None \<and>
   map_sum id fst (find_shortest_path abc_strike ''B'' ''B'') = Inr None"
  by code_simp

text \<open>
  C9, amended. On an initialised simulation, for a registered node \<open>a\<close> that is not
  blocked and is a node of the effective graph (as every registered node is after a
  rebuild, see \<open>build_graph_has_nodes\<close>), the query from \<open>a\<close> to \<open>a\<close> returns the path
  \<open>[a]\<close> with no edges, duration, emissions and cost 0 and node count 1, and stores it as
  the current route.
\<close>

theorem find_shortest_path_self:
  assumes "initialized s" and "map_of (nodes s) a = Some n" and "\<not> blocked n"
    and "map_of (graph s) a \<noteq> None"
  shows "find_shortest_path s a a =
     Inr (Some \<lparr>r_path = [a], r_edges = [],
                r_metrics = \<lparr>m_duration = 0, m_emissions = 0, m_cost = 0, m_total_nodes = 1\<rparr>\<rparr>,
          s\<lparr>current_route :=
               Some \<lparr>r_path = [a], r_edges = [],
                     r_metrics = \<lparr>m_duration = 0, m_emissions = 0, m_cost = 0, m_total_nodes = 1\<rparr>\<rparr>\<rparr>)"
  using assms by (auto simp: find_shortest_path_def dijkstra_path_def Let_def)

theorem find_shortest_path_self_witness:
  "initialized abc_sim \<and> map_of (nodes abc_sim) ''B'' = Some (new_node ''B'' 0 1 ''Port B'' ''seaport'') \<and>
   \<not> blocked (new_node ''B'' 0 1 ''Port B'' ''seaport'') \<and> map_of (graph abc_sim) ''B'' \<noteq> None \<and>
   find_shortest_path abc_sim ''B'' ''B'' =
     Inr (Some \<lparr>r_path = [''B''], r_edges = [],
                r_metrics = \<lparr>m_duration = 0, m_emissions = 0, m_cost = 0, m_total_nodes = 1\<rparr>\<rparr>,
          abc_sim\<lparr>current_route :=
               Some \<lparr>r_path = [''B''], r_edges = [],
                     r_metrics = \<lparr>m_duration = 0, m_emissions = 0, m_cost = 0, m_total_nodes = 1\<rparr>\<rparr>\<rparr>)"
proof -
  have h1: "initialized abc_sim" by code_simp
  have h2: "map_of (nodes abc_sim) ''B'' = Some (new_node ''B'' 0 1 ''Port B'' ''seaport'')"
    by code_simp
  have h3: "\<not> blocked (new_node ''B'' 0 1 ''Port B'' ''seaport'')" by code_simp
  have h4: "map_of (graph abc_sim) ''B'' \<noteq> None" by code_simp
  from find_shortest_path_self [OF h1 h2 h3 h4] h1 h2 h3 h4 show ?thesis by blast
qed

section \<open>Adding and removing a pain point\<close>



section \<open>Correctness of the shortest-path search\<close>

declare dijkstra_loop.simps [simp del]

lemma heap_min_in: "heap_min x ys \<in> set (x # ys)"
  by (induction ys arbitrary: x) auto

lemma heap_min_le_head: "fst (heap_min x ys) \<le> fst x"
proof (induction ys arbitrary: x)
  case Nil
  then show ?case by simp
next
  case (Cons y ys)
  have "fst (if entry_le x y then x else y) \<le> fst x"
    by (auto simp: entry_le_def)
  with Cons [of "if entry_le x y then x else y"] show ?case
    by simp
qed

lemma heap_min_le: "e \<in> set (x # ys) \<Longrightarrow> fst (heap_min x ys) \<le> fst e"
proof (induction ys arbitrary: x)
  case Nil
  then show ?case by simp
next
  case (Cons y ys)
  let ?m = "if entry_le x y then x else y"
  have m: "fst ?m \<le> fst x" "fst ?m \<le> fst y"
    by (auto simp: entry_le_def)
  from Cons.prems consider "e = x" | "e = y" | "e \<in> set ys"
    by auto
  then show ?case
  proof cases
    case 1
    with heap_min_le_head [of ?m ys] m show ?thesis by simp
  next
    case 2
    with heap_min_le_head [of ?m ys] m show ?thesis by simp
  next
    case 3
    with Cons.IH [of ?m] show ?thesis by simp
  qed
qed

lemma is_path_snoc:
  "p \<noteq> [] \<Longrightarrow> is_path g (p @ [y]) = (is_path g p \<and> graph_edge g (last p) y \<noteq> None)"
  by (induction g p rule: is_path.induct) auto

lemma path_weight_snoc:
  "p \<noteq> [] \<Longrightarrow> path_weight g w (p @ [y]) = path_weight g w p + edge_weight g w (last p) y"
  by (induction p rule: induct_list012) auto

lemma path_weight_nonneg:
  assumes "\<And>u v d. graph_edge g u v = Some d \<Longrightarrow> 0 \<le> w u v d"
  shows "0 \<le> path_weight g w p"
proof (induction p rule: induct_list012)
  case (3 x y zs)
  have "0 \<le> edge_weight g w x y"
    using assms by (auto simp: edge_weight_def split: option.splits)
  with 3 show ?case by simp
qed simp_all

lemma st_path_snoc:
  assumes "st_path g a v p" and "graph_edge g v u = Some e"
  shows "st_path g a u (p @ [u])" and "path_weight g w (p @ [u]) = path_weight g w p + w v u e"
proof -
  from assms(1) have ne: "p \<noteq> []" and lp: "last p = v" and hp: "hd p = a" and ip: "is_path g p"
    by (auto simp: st_path_def)
  from ne lp ip assms(2) hp show "st_path g a u (p @ [u])"
    by (simp add: st_path_def is_path_snoc)
  from ne lp assms(2) show "path_weight g w (p @ [u]) = path_weight g w p + w v u e"
    by (simp add: path_weight_snoc edge_weight_def)
qed

lemma graph_edge_in_succs:
  assumes "dict_graph g" and "map_of g v = Some succs"
  shows "graph_edge g v u = Some e \<longleftrightarrow> (u, e) \<in> set succs"
proof -
  from assms(2) have "(v, succs) \<in> set g"
    by (rule map_of_SomeD)
  with assms(1) have "distinct (map fst succs)"
    by (auto simp: dict_graph_def list_all_iff)
  then show ?thesis
    using assms(2) by (simp add: graph_edge_def)
qed

subsection \<open>The invariant and its preservation\<close>

lemma dinv_final: "dinv g w src ex dists fr \<Longrightarrow> dists x = Some dx \<Longrightarrow> seen fr x = Some dx"
  unfolding dinv_def by blast

lemma dinv_path:
  "dinv g w src ex dists fr \<Longrightarrow> seen fr u = Some d \<Longrightarrow>
     \<exists>p. paths fr u = Some p \<and> st_path g src u p \<and> path_weight g w p = d"
  unfolding dinv_def by blast

lemma dinv_queued:
  "dinv g w src ex dists fr \<Longrightarrow> seen fr u = Some d \<Longrightarrow> dists u = None \<Longrightarrow>
     \<exists>c. (d, c, u) \<in> set (fringe fr)"
  unfolding dinv_def by blast

lemma dinv_entry:
  "dinv g w src ex dists fr \<Longrightarrow> (d, c, u) \<in> set (fringe fr) \<Longrightarrow>
     \<exists>d'. seen fr u = Some d' \<and> d' \<le> d"
  unfolding dinv_def by blast

lemma dinv_relaxed:
  "dinv g w src ex dists fr \<Longrightarrow> dists v = Some dv \<Longrightarrow> v \<notin> ex \<Longrightarrow> graph_edge g v u = Some e \<Longrightarrow>
     \<exists>du. seen fr u = Some du \<and> du \<le> dv + w v u e"
  unfolding dinv_def by blast

lemma dinv_mono:
  "dinv g w src ex dists fr \<Longrightarrow> dists v = Some dv \<Longrightarrow> (d, c, u) \<in> set (fringe fr) \<Longrightarrow> dv \<le> d"
  unfolding dinv_def by blast

lemma dinv_src: "dinv g w src ex dists fr \<Longrightarrow> seen fr src = Some 0"
  unfolding dinv_def by blast

lemma dinv_push:
  assumes nn: "\<And>u v d. graph_edge g u v = Some d \<Longrightarrow> 0 \<le> w u v d"
    and dv: "dists v = Some d" and d0: "0 \<le> d"
    and mx: "\<And>x dx. dists x = Some dx \<Longrightarrow> dx \<le> d"
    and inv: "dinv g w src {v} dists fr"
    and ge: "graph_edge g v u = Some e"
    and un: "dists u = None"
    and cond: "case seen fr u of None \<Rightarrow> True | Some su \<Rightarrow> d + w v u e < su"
    and pv: "paths fr v = Some pv"
  shows "dinv g w src {v} dists
           (fr\<lparr>seen := (seen fr)(u \<mapsto> d + w v u e),
               fringe := fringe fr @ [(d + w v u e, counter fr, u)],
               counter := Suc (counter fr),
               paths := (paths fr)(u \<mapsto> pv @ [u])\<rparr>)"
    (is "dinv g w src {v} dists ?fr")
proof -
  let ?vu = "d + w v u e"
  have we: "0 \<le> w v u e"
    using nn ge by blast
  have sv: "seen fr v = Some d"
    using dinv_final [OF inv dv] .
  from dinv_path [OF inv sv] pv have pvp: "st_path g src v pv" "path_weight g w pv = d"
    by auto
  have usrc: "u \<noteq> src"
  proof
    assume "u = src"
    with dinv_src [OF inv] cond have "?vu < 0" by simp
    with d0 we show False by simp
  qed
  have c1: "\<forall>x dx. dists x = Some dx \<longrightarrow> seen ?fr x = Some dx"
    using dinv_final [OF inv] un by auto
  have c2: "\<forall>x dx. seen ?fr x = Some dx \<longrightarrow>
      (\<exists>p. paths ?fr x = Some p \<and> st_path g src x p \<and> path_weight g w p = dx)"
  proof (intro allI impI)
    fix x dx
    assume s: "seen ?fr x = Some dx"
    show "\<exists>p. paths ?fr x = Some p \<and> st_path g src x p \<and> path_weight g w p = dx"
    proof (cases "x = u")
      case True
      with s have "dx = ?vu" by simp
      with True st_path_snoc(1) [OF pvp(1) ge] st_path_snoc(2) [OF pvp(1) ge, of w] pvp(2) show ?thesis
        by simp
    next
      case False
      with s dinv_path [OF inv, of x dx] show ?thesis by simp
    qed
  qed
  have c3: "\<forall>x dx. seen ?fr x = Some dx \<and> dists x = None \<longrightarrow> (\<exists>c. (dx, c, x) \<in> set (fringe ?fr))"
  proof (intro allI impI)
    fix x dx
    assume s: "seen ?fr x = Some dx \<and> dists x = None"
    show "\<exists>c. (dx, c, x) \<in> set (fringe ?fr)"
    proof (cases "x = u")
      case True
      with s show ?thesis by auto
    next
      case False
      with s dinv_queued [OF inv, of x dx] show ?thesis by auto
    qed
  qed
  have c4: "\<forall>k c x. (k, c, x) \<in> set (fringe ?fr) \<longrightarrow> (\<exists>d'. seen ?fr x = Some d' \<and> d' \<le> k)"
  proof (intro allI impI)
    fix k c x
    assume m: "(k, c, x) \<in> set (fringe ?fr)"
    then consider "(k, c, x) \<in> set (fringe fr)" | "k = ?vu" "x = u"
      by auto
    then show "\<exists>d'. seen ?fr x = Some d' \<and> d' \<le> k"
    proof cases
      case 1
      from dinv_entry [OF inv 1] obtain d' where d': "seen fr x = Some d'" "d' \<le> k"
        by blast
      show ?thesis
      proof (cases "x = u")
        case True
        with d' cond show ?thesis by simp
      next
        case False
        with d' show ?thesis by simp
      qed
    next
      case 2
      then show ?thesis by simp
    qed
  qed
  have c5: "\<forall>x dx y e'. dists x = Some dx \<and> x \<notin> {v} \<and> graph_edge g x y = Some e' \<longrightarrow>
      (\<exists>du. seen ?fr y = Some du \<and> du \<le> dx + w x y e')"
  proof (intro allI impI)
    fix x dx y e'
    assume h: "dists x = Some dx \<and> x \<notin> {v} \<and> graph_edge g x y = Some e'"
    with dinv_relaxed [OF inv, of x dx y e'] obtain du where du: "seen fr y = Some du" "du \<le> dx + w x y e'"
      by blast
    show "\<exists>du. seen ?fr y = Some du \<and> du \<le> dx + w x y e'"
    proof (cases "y = u")
      case True
      with du cond show ?thesis by simp
    next
      case False
      with du show ?thesis by simp
    qed
  qed
  have c6: "\<forall>x dx k c y. dists x = Some dx \<and> (k, c, y) \<in> set (fringe ?fr) \<longrightarrow> dx \<le> k"
  proof (intro allI impI)
    fix x dx k c y
    assume h: "dists x = Some dx \<and> (k, c, y) \<in> set (fringe ?fr)"
    then consider "(k, c, y) \<in> set (fringe fr)" | "k = ?vu"
      by auto
    then show "dx \<le> k"
    proof cases
      case 1
      with h dinv_mono [OF inv] show ?thesis by blast
    next
      case 2
      with h mx [of x dx] we show ?thesis by simp
    qed
  qed
  have c7: "seen ?fr src = Some 0"
    using dinv_src [OF inv] usrc by simp
  from c1 c2 c3 c4 c5 c6 c7 show ?thesis
    unfolding dinv_def by (intro conjI)
qed

lemma relax_dinv:
  assumes nn: "\<And>u v d. graph_edge g u v = Some d \<Longrightarrow> 0 \<le> w u v d"
    and dv: "dists v = Some d" and d0: "0 \<le> d"
    and mx: "\<And>x dx. dists x = Some dx \<Longrightarrow> dx \<le> d"
  shows "dinv g w src {v} dists fr \<Longrightarrow> \<forall>(u, e) \<in> set rest. graph_edge g v u = Some e \<Longrightarrow>
     relax w dists v d rest fr = Inr fr' \<Longrightarrow>
     dinv g w src {v} dists fr' \<and>
     (\<forall>(u, e) \<in> set rest. \<exists>du. seen fr' u = Some du \<and> du \<le> d + w v u e) \<and>
     (\<forall>x dx. seen fr x = Some dx \<longrightarrow> (\<exists>dx'. seen fr' x = Some dx' \<and> dx' \<le> dx))"
proof (induction rest arbitrary: fr)
  case Nil
  then show ?case by simp
next
  case (Cons a rest)
  obtain u e where a: "a = (u, e)"
    by (cases a)
  let ?vu = "d + w v u e"
  from Cons.prems(2) a have ge: "graph_edge g v u = Some e"
    and rest: "\<forall>(u, e) \<in> set rest. graph_edge g v u = Some e"
    by auto
  note inv = Cons.prems(1)
  show ?case
  proof (cases "dists u")
    case (Some du)
    with Cons.prems(3) a have le: "du \<le> ?vu" and run: "relax w dists v d rest fr = Inr fr'"
      by (auto split: if_splits)
    from Cons.IH [OF inv rest run] have
      i': "dinv g w src {v} dists fr'"
      and b': "\<forall>(u, e) \<in> set rest. \<exists>du. seen fr' u = Some du \<and> du \<le> d + w v u e"
      and m': "\<forall>x dx. seen fr x = Some dx \<longrightarrow> (\<exists>dx'. seen fr' x = Some dx' \<and> dx' \<le> dx)"
      by blast+
    from dinv_final [OF inv Some] m' obtain du' where "seen fr' u = Some du'" "du' \<le> du"
      by blast
    with le have "\<exists>du. seen fr' u = Some du \<and> du \<le> ?vu"
      by auto
    with i' b' m' a show ?thesis
      by simp
  next
    case None
    show ?thesis
    proof (cases "case seen fr u of None \<Rightarrow> True | Some su \<Rightarrow> ?vu < su")
      case True
      let ?fr = "\<lambda>pv. fr\<lparr>seen := (seen fr)(u \<mapsto> ?vu),
               fringe := fringe fr @ [(?vu, counter fr, u)],
               counter := Suc (counter fr),
               paths := (paths fr)(u \<mapsto> pv @ [u])\<rparr>"
      from Cons.prems(3) a None True obtain pv where pv: "paths fr v = Some pv"
        and run: "relax w dists v d rest (?fr pv) = Inr fr'"
        by (auto simp: Let_def split: option.splits)
      have inv2: "dinv g w src {v} dists (?fr pv)"
        using nn dv d0 mx inv ge None True pv by (rule dinv_push)
      from Cons.IH [OF inv2 rest run] have
        i': "dinv g w src {v} dists fr'"
        and b': "\<forall>(u, e) \<in> set rest. \<exists>du. seen fr' u = Some du \<and> du \<le> d + w v u e"
        and m': "\<forall>x dx. seen (?fr pv) x = Some dx \<longrightarrow> (\<exists>dx'. seen fr' x = Some dx' \<and> dx' \<le> dx)"
        by blast+
      from m' [rule_format, of u ?vu] have bu: "\<exists>du. seen fr' u = Some du \<and> du \<le> ?vu"
        by simp
      have "\<forall>x dx. seen fr x = Some dx \<longrightarrow> (\<exists>dx'. seen fr' x = Some dx' \<and> dx' \<le> dx)"
      proof (intro allI impI)
        fix x dx
        assume s: "seen fr x = Some dx"
        show "\<exists>dx'. seen fr' x = Some dx' \<and> dx' \<le> dx"
        proof (cases "x = u")
          case xu: True
          with s True have "?vu < dx" by simp
          with bu xu show ?thesis by auto
        next
          case False
          with s m' [rule_format, of x dx] show ?thesis by simp
        qed
      qed
      with i' b' bu a show ?thesis
        by simp
    next
      case False
      then obtain su where su: "seen fr u = Some su" "su \<le> ?vu"
        by (auto split: option.splits)
      from Cons.prems(3) a None False have run: "relax w dists v d rest fr = Inr fr'"
        by (auto split: option.splits)
      from Cons.IH [OF inv rest run] have
        i': "dinv g w src {v} dists fr'"
        and b': "\<forall>(u, e) \<in> set rest. \<exists>du. seen fr' u = Some du \<and> du \<le> d + w v u e"
        and m': "\<forall>x dx. seen fr x = Some dx \<longrightarrow> (\<exists>dx'. seen fr' x = Some dx' \<and> dx' \<le> dx)"
        by blast+
      from su m' obtain du' where "seen fr' u = Some du'" "du' \<le> su"
        by blast
      with su have "\<exists>du. seen fr' u = Some du \<and> du \<le> ?vu"
        by auto
      with i' b' m' a show ?thesis
        by simp
    qed
  qed
qed

text \<open>A lower bound for every path from the source, at the head of the loop: the final
  distance of its end node, or the least key of the queue when the end node is not
  final.\<close>

lemma dinv_lower_bound:
  assumes nn: "\<And>u v d. graph_edge g u v = Some d \<Longrightarrow> 0 \<le> w u v d"
    and inv: "dinv g w src {} dists fr"
    and top: "(dm, cm, vm) \<in> set (fringe fr)"
    and least: "\<And>e. e \<in> set (fringe fr) \<Longrightarrow> dm \<le> fst e"
  shows "st_path g src x p \<Longrightarrow>
     (case dists x of Some dx \<Rightarrow> dx \<le> path_weight g w p | None \<Rightarrow> dm \<le> path_weight g w p)"
proof (induction p arbitrary: x rule: rev_induct)
  case Nil
  then show ?case by (simp add: st_path_def)
next
  case (snoc y q)
  from snoc.prems have xy: "y = x"
    by (simp add: st_path_def)
  show ?case
  proof (cases "q = []")
    case True
    with snoc.prems xy have xs: "x = src" and pw: "path_weight g w (q @ [y]) = 0"
      by (auto simp: st_path_def)
    show ?thesis
    proof (cases "dists x")
      case None
      with dinv_queued [OF inv dinv_src [OF inv]] xs obtain c where "(0, c, src) \<in> set (fringe fr)"
        by auto
      from least [OF this] None pw show ?thesis by simp
    next
      case (Some dx)
      with dinv_final [OF inv Some] dinv_src [OF inv] xs pw show ?thesis by simp
    qed
  next
    case False
    define z where "z = last q"
    from False snoc.prems xy have q: "st_path g src z q" and "graph_edge g z x \<noteq> None"
      by (simp_all add: st_path_def is_path_snoc z_def)
    then obtain e where e: "graph_edge g z x = Some e"
      by blast
    have pw: "path_weight g w (q @ [y]) = path_weight g w q + w z x e"
      using False e xy by (simp add: path_weight_snoc z_def edge_weight_def)
    have we: "0 \<le> w z x e"
      using nn e by blast
    note ih = snoc.IH [OF q]
    show ?thesis
    proof (cases "dists z")
      case zf: (Some dz)
      with ih have dz: "dz \<le> path_weight g w q" by simp
      from dinv_relaxed [OF inv zf _ e] obtain du where du: "seen fr x = Some du" "du \<le> dz + w z x e"
        by blast
      show ?thesis
      proof (cases "dists x")
        case None
        from dinv_queued [OF inv du(1) None] obtain c where "(du, c, x) \<in> set (fringe fr)"
          by blast
        from least [OF this] du(2) dz None pw show ?thesis by simp
      next
        case (Some dx)
        with dinv_final [OF inv Some] du dz pw show ?thesis by simp
      qed
    next
      case zn: None
      with ih have dm: "dm \<le> path_weight g w q" by simp
      show ?thesis
      proof (cases "dists x")
        case None
        with dm we pw show ?thesis by simp
      next
        case (Some dx)
        from dinv_mono [OF inv Some top] dm we pw Some show ?thesis by simp
      qed
    qed
  qed
qed

lemma dinv_skip:
  assumes inv: "dinv g w src {} dists fr" and fin: "dists v \<noteq> None"
  shows "dinv g w src {} dists (fr\<lparr>fringe := remove1 (d, c, v) (fringe fr)\<rparr>)"
    (is "dinv g w src {} dists ?fr")
proof -
  have sub: "e \<in> set (fringe fr)" if "e \<in> set (fringe ?fr)" for e
    using that set_remove1_subset [of "(d, c, v)" "fringe fr"] by auto
  have c1: "\<forall>x dx. dists x = Some dx \<longrightarrow> seen ?fr x = Some dx"
    using dinv_final [OF inv] by simp
  have c2: "\<forall>u d. seen ?fr u = Some d \<longrightarrow>
      (\<exists>p. paths ?fr u = Some p \<and> st_path g src u p \<and> path_weight g w p = d)"
    using dinv_path [OF inv] by simp
  have c3: "\<forall>x dx. seen ?fr x = Some dx \<and> dists x = None \<longrightarrow> (\<exists>k. (dx, k, x) \<in> set (fringe ?fr))"
  proof (intro allI impI)
    fix x dx
    assume h: "seen ?fr x = Some dx \<and> dists x = None"
    with dinv_queued [OF inv, of x dx] obtain k where k: "(dx, k, x) \<in> set (fringe fr)"
      by auto
    from h fin have "x \<noteq> v" by auto
    with k have "(dx, k, x) \<in> set (fringe ?fr)"
      by simp
    then show "\<exists>k. (dx, k, x) \<in> set (fringe ?fr)" ..
  qed
  have c4: "\<forall>k j x. (k, j, x) \<in> set (fringe ?fr) \<longrightarrow> (\<exists>d'. seen ?fr x = Some d' \<and> d' \<le> k)"
  proof (intro allI impI)
    fix k j x
    assume "(k, j, x) \<in> set (fringe ?fr)"
    from dinv_entry [OF inv sub [OF this]] show "\<exists>d'. seen ?fr x = Some d' \<and> d' \<le> k"
      by simp
  qed
  have c5: "\<forall>x dx y e. dists x = Some dx \<and> x \<notin> {} \<and> graph_edge g x y = Some e \<longrightarrow>
      (\<exists>du. seen ?fr y = Some du \<and> du \<le> dx + w x y e)"
    using dinv_relaxed [OF inv] by simp
  have c6: "\<forall>x dx k j y. dists x = Some dx \<and> (k, j, y) \<in> set (fringe ?fr) \<longrightarrow> dx \<le> k"
  proof (intro allI impI)
    fix x dx k j y
    assume h: "dists x = Some dx \<and> (k, j, y) \<in> set (fringe ?fr)"
    then have "(k, j, y) \<in> set (fringe fr)"
      using sub by blast
    with h dinv_mono [OF inv] show "dx \<le> k"
      by blast
  qed
  have c7: "seen ?fr src = Some 0"
    using dinv_src [OF inv] by simp
  from c1 c2 c3 c4 c5 c6 c7 show ?thesis
    unfolding dinv_def by (intro conjI)
qed

lemma dinv_pop_seen:
  assumes inv: "dinv g w src {} dists fr"
    and top: "(d, c, v) \<in> set (fringe fr)"
    and least: "\<And>e. e \<in> set (fringe fr) \<Longrightarrow> d \<le> fst e"
    and un: "dists v = None"
  shows "seen fr v = Some d"
proof -
  from dinv_entry [OF inv top] obtain d' where d': "seen fr v = Some d'" "d' \<le> d"
    by blast
  from dinv_queued [OF inv d'(1) un] obtain k where "(d', k, v) \<in> set (fringe fr)"
    by blast
  from least [OF this] d' show ?thesis
    by simp
qed

lemma dinv_settle:
  assumes inv: "dinv g w src {} dists fr"
    and top: "(d, c, v) \<in> set (fringe fr)"
    and least: "\<And>e. e \<in> set (fringe fr) \<Longrightarrow> d \<le> fst e"
    and un: "dists v = None"
  shows "dinv g w src {v} (dists(v \<mapsto> d)) (fr\<lparr>fringe := remove1 (d, c, v) (fringe fr)\<rparr>)"
    (is "dinv g w src {v} ?dists ?fr")
proof -
  have sv: "seen fr v = Some d"
    using inv top least un by (rule dinv_pop_seen)
  have sub: "e \<in> set (fringe fr)" if "e \<in> set (fringe ?fr)" for e
    using that set_remove1_subset [of "(d, c, v)" "fringe fr"] by auto
  have c1: "\<forall>x dx. ?dists x = Some dx \<longrightarrow> seen ?fr x = Some dx"
    using dinv_final [OF inv] sv by simp
  have c2: "\<forall>u d. seen ?fr u = Some d \<longrightarrow>
      (\<exists>p. paths ?fr u = Some p \<and> st_path g src u p \<and> path_weight g w p = d)"
    using dinv_path [OF inv] by simp
  have c3: "\<forall>x dx. seen ?fr x = Some dx \<and> ?dists x = None \<longrightarrow> (\<exists>k. (dx, k, x) \<in> set (fringe ?fr))"
  proof (intro allI impI)
    fix x dx
    assume h: "seen ?fr x = Some dx \<and> ?dists x = None"
    then have xv: "x \<noteq> v" and "dists x = None" and "seen fr x = Some dx"
      by (auto split: if_splits)
    with dinv_queued [OF inv, of x dx] obtain k where k: "(dx, k, x) \<in> set (fringe fr)"
      by auto
    with xv have "(dx, k, x) \<in> set (fringe ?fr)"
      by simp
    then show "\<exists>k. (dx, k, x) \<in> set (fringe ?fr)" ..
  qed
  have c4: "\<forall>k j x. (k, j, x) \<in> set (fringe ?fr) \<longrightarrow> (\<exists>d'. seen ?fr x = Some d' \<and> d' \<le> k)"
  proof (intro allI impI)
    fix k j x
    assume "(k, j, x) \<in> set (fringe ?fr)"
    from dinv_entry [OF inv sub [OF this]] show "\<exists>d'. seen ?fr x = Some d' \<and> d' \<le> k"
      by simp
  qed
  have c5: "\<forall>x dx y e. ?dists x = Some dx \<and> x \<notin> {v} \<and> graph_edge g x y = Some e \<longrightarrow>
      (\<exists>du. seen ?fr y = Some du \<and> du \<le> dx + w x y e)"
  proof (intro allI impI)
    fix x dx y e
    assume h: "?dists x = Some dx \<and> x \<notin> {v} \<and> graph_edge g x y = Some e"
    then have "dists x = Some dx" "graph_edge g x y = Some e"
      by (auto split: if_splits)
    from dinv_relaxed [OF inv this(1) _ this(2)]
    show "\<exists>du. seen ?fr y = Some du \<and> du \<le> dx + w x y e"
      by simp
  qed
  have c6: "\<forall>x dx k j y. ?dists x = Some dx \<and> (k, j, y) \<in> set (fringe ?fr) \<longrightarrow> dx \<le> k"
  proof (intro allI impI)
    fix x dx k j y
    assume h: "?dists x = Some dx \<and> (k, j, y) \<in> set (fringe ?fr)"
    then have m: "(k, j, y) \<in> set (fringe fr)"
      using sub by blast
    show "dx \<le> k"
    proof (cases "x = v")
      case True
      with h have "dx = d" by simp
      with least [OF m] show ?thesis by simp
    next
      case False
      with h have "dists x = Some dx" by simp
      from dinv_mono [OF inv this m] show ?thesis .
    qed
  qed
  have c7: "seen ?fr src = Some 0"
    using dinv_src [OF inv] by simp
  from c1 c2 c3 c4 c5 c6 c7 show ?thesis
    unfolding dinv_def by (intro conjI)
qed

lemma dinv_close:
  assumes inv: "dinv g w src {v} dists fr"
    and dv: "dists v = Some d"
    and out: "\<And>u e. graph_edge g v u = Some e \<Longrightarrow> \<exists>du. seen fr u = Some du \<and> du \<le> d + w v u e"
  shows "dinv g w src {} dists fr"
proof -
  have c5: "\<forall>x dx y e. dists x = Some dx \<and> x \<notin> {} \<and> graph_edge g x y = Some e \<longrightarrow>
      (\<exists>du. seen fr y = Some du \<and> du \<le> dx + w x y e)"
  proof (intro allI impI)
    fix x dx y e
    assume h: "dists x = Some dx \<and> x \<notin> {} \<and> graph_edge g x y = Some e"
    show "\<exists>du. seen fr y = Some du \<and> du \<le> dx + w x y e"
    proof (cases "x = v")
      case True
      with h dv out [of y e] show ?thesis by simp
    next
      case False
      with h dinv_relaxed [OF inv, of x dx y e] show ?thesis by simp
    qed
  qed
  from inv have
    "\<forall>v d. dists v = Some d \<longrightarrow> seen fr v = Some d"
    "\<forall>u d. seen fr u = Some d \<longrightarrow>
        (\<exists>p. paths fr u = Some p \<and> st_path g src u p \<and> path_weight g w p = d)"
    "\<forall>u d. seen fr u = Some d \<and> dists u = None \<longrightarrow> (\<exists>c. (d, c, u) \<in> set (fringe fr))"
    "\<forall>d c u. (d, c, u) \<in> set (fringe fr) \<longrightarrow> (\<exists>d'. seen fr u = Some d' \<and> d' \<le> d)"
    "\<forall>v dv d c u. dists v = Some dv \<and> (d, c, u) \<in> set (fringe fr) \<longrightarrow> dv \<le> d"
    "seen fr src = Some 0"
    unfolding dinv_def by blast+
  with c5 show ?thesis
    unfolding dinv_def by (intro conjI)
qed

subsection \<open>The loop and the library function\<close>

lemma dijkstra_loop_minimal:
  assumes nn: "\<And>u v d. graph_edge g u v = Some d \<Longrightarrow> 0 \<le> w u v d"
    and dg: "dict_graph g"
  shows "dinv g w src {} dists fr \<Longrightarrow> dists target = None \<Longrightarrow>
     dijkstra_loop g w target dists fr = Inr (dists', fr') \<Longrightarrow> dists' target \<noteq> None \<Longrightarrow>
     \<exists>p. paths fr' target = Some p \<and> st_path g src target p \<and>
         (\<forall>q. st_path g src target q \<longrightarrow> path_weight g w p \<le> path_weight g w q)"
  using nn dg
proof (induction g w target dists fr rule: dijkstra_loop.induct)
  case (1 g w target dists fr)
  note inv = "1.prems"(1) and tn = "1.prems"(2) and run = "1.prems"(3) and res = "1.prems"(4)
    and nn = "1.prems"(5) and dg = "1.prems"(6)
  show ?case
  proof (cases "fringe fr")
    case Nil
    with run have "dists' = dists"
      by (simp add: dijkstra_loop.simps [of g w target dists fr])
    with tn res show ?thesis by simp
  next
    case (Cons h t)
    obtain d c v where hm: "heap_min h t = (d, c, v)"
      by (cases "heap_min h t")
    have top: "(d, c, v) \<in> set (fringe fr)"
      using heap_min_in [of h t] hm Cons by simp
    have least: "d \<le> fst e" if "e \<in> set (fringe fr)" for e
      using heap_min_le [of e h t] that hm Cons by simp
    have e1: "(d, (c, v)) = heap_min h t" and e2: "(c, v) = (c, v)"
      using hm by simp_all
    let ?fr = "fr\<lparr>fringe := remove1 (d, c, v) (h # t)\<rparr>"
    show ?thesis
    proof (cases "dists v")
      case (Some dv)
      with run Cons hm have run': "dijkstra_loop g w target dists ?fr = Inr (dists', fr')"
        by (simp add: dijkstra_loop.simps [of g w target dists fr])
      have inv': "dinv g w src {} dists ?fr"
        using dinv_skip [OF inv, of v d c] Some Cons by simp
      from Some have fin: "dists v \<noteq> None" by simp
      show ?thesis
        by (rule "1.IH"(1) [OF Cons e1 e2 fin inv' tn run' res _ dg]) (rule nn)
    next
      case None
      have sv: "seen fr v = Some d"
        using inv top least None by (rule dinv_pop_seen)
      show ?thesis
      proof (cases "v = target")
        case True
        with run Cons hm None have r: "dists' = dists(v \<mapsto> d)" "fr' = ?fr"
          by (simp_all add: dijkstra_loop.simps [of g w target dists fr])
        from dinv_path [OF inv sv] obtain p where
          p: "paths fr v = Some p" "st_path g src v p" "path_weight g w p = d"
          by blast
        have "path_weight g w p \<le> path_weight g w q" if q: "st_path g src target q" for q
        proof -
          have "case dists target of Some dx \<Rightarrow> dx \<le> path_weight g w q
                | None \<Rightarrow> d \<le> path_weight g w q"
            using nn inv top least q by (rule dinv_lower_bound)
          with tn p(3) show ?thesis by simp
        qed
        with p True r show ?thesis
          by auto
      next
        case False
        from run Cons hm None False obtain succs fr2 where
          adj: "map_of g v = Some succs"
          and rel: "relax w (dists(v \<mapsto> d)) v d succs ?fr = Inr fr2"
          and run': "dijkstra_loop g w target (dists(v \<mapsto> d)) fr2 = Inr (dists', fr')"
          by (auto simp: dijkstra_loop.simps [of g w target dists fr] split: option.splits sum.splits)
        have inv1: "dinv g w src {v} (dists(v \<mapsto> d)) ?fr"
          using dinv_settle [OF inv top least None] Cons by simp
        from dinv_path [OF inv sv] obtain p where "path_weight g w p = d"
          by blast
        moreover have "0 \<le> path_weight g w p"
          using nn by (rule path_weight_nonneg)
        ultimately have d0: "0 \<le> d"
          by simp
        have mx: "dx \<le> d" if "(dists(v \<mapsto> d)) x = Some dx" for x dx
        proof (cases "x = v")
          case True
          with that show ?thesis by simp
        next
          case False
          with that have "dists x = Some dx" by simp
          from dinv_mono [OF inv this top] show ?thesis .
        qed
        have edges: "\<forall>(u, e) \<in> set succs. graph_edge g v u = Some e"
          using graph_edge_in_succs [OF dg adj] by blast
        have dvs: "(dists(v \<mapsto> d)) v = Some d"
          by simp
        have "dinv g w src {v} (dists(v \<mapsto> d)) fr2 \<and>
            (\<forall>(u, e) \<in> set succs. \<exists>du. seen fr2 u = Some du \<and> du \<le> d + w v u e) \<and>
            (\<forall>x dx. seen ?fr x = Some dx \<longrightarrow> (\<exists>dx'. seen fr2 x = Some dx' \<and> dx' \<le> dx))"
          using nn dvs d0 mx inv1 edges rel by (rule relax_dinv)
        then have
          inv2: "dinv g w src {v} (dists(v \<mapsto> d)) fr2"
          and out: "\<forall>(u, e) \<in> set succs. \<exists>du. seen fr2 u = Some du \<and> du \<le> d + w v u e"
          by blast+
        have "\<exists>du. seen fr2 u = Some du \<and> du \<le> d + w v u e" if "graph_edge g v u = Some e" for u e
          using that graph_edge_in_succs [OF dg adj, of u e] out by blast
        with inv2 dvs have inv3: "dinv g w src {} (dists(v \<mapsto> d)) fr2"
          by (rule dinv_close)
        have tn': "(dists(v \<mapsto> d)) target = None"
          using tn False by simp
        have unset: "\<not> dists v \<noteq> None"
          using None by simp
        show ?thesis
          by (rule "1.IH"(2) [OF Cons e1 e2 unset False adj rel inv3 tn' run' res _ dg]) (rule nn)
      qed
    qed
  qed
qed

lemma dijkstra_path_minimal:
  assumes nn: "\<And>u v d. graph_edge g u v = Some d \<Longrightarrow> 0 \<le> w u v d"
    and dg: "dict_graph g"
    and run: "dijkstra_path g src target w = Inr p"
  shows "st_path g src target p \<and>
         (\<forall>q. st_path g src target q \<longrightarrow> path_weight g w p \<le> path_weight g w q)"
proof (cases "target = src")
  case True
  with run have "p = [src]"
    by (simp add: dijkstra_path_def split: if_splits)
  moreover have "0 \<le> path_weight g w q" for q
    using nn by (rule path_weight_nonneg)
  ultimately show ?thesis
    using True by (simp add: st_path_def)
next
  case False
  let ?fr = "\<lparr>seen = [src \<mapsto> 0], paths = [src \<mapsto> [src]], fringe = [(0, 0, src)], counter = 1\<rparr>"
  from run False obtain dists' fr' dt where
    loop: "dijkstra_loop g w target Map.empty ?fr = Inr (dists', fr')"
    and dt: "dists' target = Some dt" and p: "paths fr' target = Some p"
    by (auto simp: dijkstra_path_def split: if_splits sum.splits option.splits)
  have inv: "dinv g w src {} Map.empty ?fr"
    by (auto simp: dinv_def st_path_def)
  have tn: "Map.empty target = (None :: real option)" by simp
  from dt have res: "dists' target \<noteq> None" by simp
  have "\<exists>p. paths fr' target = Some p \<and> st_path g src target p \<and>
         (\<forall>q. st_path g src target q \<longrightarrow> path_weight g w p \<le> path_weight g w q)"
    using nn dg inv tn loop res by (rule dijkstra_loop_minimal)
  with p show ?thesis
    by simp
qed

subsection \<open>The query returns a path of least weight\<close>

text \<open>The scalar weight of an edge, as the specification writes it.\<close>

lemma weight_function_formula:
  "weight_function ws u v d =
     w_duration ws * (ed_duration d / 100) + w_emissions ws * (ed_emissions d / 1000)
     + w_cost ws * (ed_cost d / 5000)"
  by (simp add: weight_function_def)

lemma dict_graph_add_node: "dict_graph g \<Longrightarrow> dict_graph (add_node g n)"
  by (simp add: dict_graph_def add_node_def)

lemma list_all_map_entry:
  "list_all P xs \<Longrightarrow> (\<And>x. P (k, x) \<Longrightarrow> P (k, f x)) \<Longrightarrow> list_all P (AList.map_entry k f xs)"
  by (induction xs) auto

lemma dict_graph_add_edge:
  assumes "dict_graph g"
  shows "dict_graph (add_edge g u v d)"
proof -
  have "dict_graph (add_node (add_node g u) v)"
    using assms by (intro dict_graph_add_node)
  then show ?thesis
    unfolding dict_graph_def add_edge_def
    by (rule list_all_map_entry) (simp add: distinct_update)
qed

lemma build_edges_dict_graph:
  "build_edges ns wg es g = Inr (es', g') \<Longrightarrow> dict_graph g \<Longrightarrow> dict_graph g'"
proof (induction es arbitrary: g es' g')
  case Nil
  then show ?case by simp
next
  case (Cons e es)
  from Cons.prems(1) consider
      (skip) es1 where "build_edges ns wg es g = Inr (es1, g')"
    | (add) es1 d1 where "build_edges ns wg es (add_edge g (source e) (destination e) d1) = Inr (es1, g')"
    by (auto simp: Let_def split: option.splits if_splits sum.splits)
  then show ?case
  proof cases
    case skip
    from Cons.IH [OF skip Cons.prems(2)] show ?thesis .
  next
    case add
    from Cons.IH [OF add dict_graph_add_edge [OF Cons.prems(2)]] show ?thesis .
  qed
qed

lemma fold_add_node_dict_graph:
  "dict_graph g \<Longrightarrow> dict_graph (fold (\<lambda>n g. add_node g n) xs g)"
  by (induction xs arbitrary: g) (simp_all add: dict_graph_add_node)

lemma build_graph_dict_graph:
  assumes "build_graph s = Inr s'"
  shows "dict_graph (graph s')"
proof -
  from assms obtain es where
    be: "build_edges (nodes s) (weather s) (edges s) (fold (\<lambda>n g. add_node g n) (map fst (nodes s)) []) = Inr (es, graph s')"
    by (auto simp: build_graph_def split: sum.splits)
  have "dict_graph []"
    by (simp add: dict_graph_def)
  then have "dict_graph (fold (\<lambda>n g. add_node g n) (map fst (nodes s)) [])"
    by (rule fold_add_node_dict_graph)
  with be show ?thesis
    by (rule build_edges_dict_graph)
qed

lemma reachable_dict_graph: "reachable s \<Longrightarrow> dict_graph (graph s)"
proof (induction rule: reachable.induct)
  case (init ns es s)
  then obtain s1 where "build_graph (new_sim\<lparr>nodes := ns, edges := es\<rparr>) = Inr s1"
    and "s = s1\<lparr>initialized := True\<rparr>"
    by (auto simp: initialize_def split: sum.splits)
  with build_graph_dict_graph [of "new_sim\<lparr>nodes := ns, edges := es\<rparr>" s1] show ?case
    by simp
next
  case (step s m s')
  from apply_mutation_cases [OF step.hyps(2)] step.IH show ?case
    by (auto dest: build_graph_dict_graph)
qed

lemma nonneg_weights_edge:
  assumes "nonneg_weights s" and "graph_edge (graph s) u v = Some d"
  shows "0 \<le> weight_function (weights s) u v d"
proof -
  from assms(2) obtain succs where "map_of (graph s) u = Some succs" "map_of succs v = Some d"
    by (auto simp: graph_edge_def split: option.splits)
  then have "(u, succs) \<in> set (graph s)" "(v, d) \<in> set succs"
    by (auto dest: map_of_SomeD)
  with assms(1) show ?thesis
    by (auto simp: nonneg_weights_def list_all_iff)
qed

text \<open>
  C1. The claim: a path returned by \<^verbatim>\<open>find_shortest_path\<close> has the least total
  scalar weight among the paths from source to target in the effective graph. The
  objective weights are not checked for sign: with the weights set to (-1, 3, 0), which
  \<^verbatim>\<open>update_weights\<close> normalises to (-1/2, 3/2, 0), the leg B-C of the three-port network
  has weight -7/2, the search stops as soon as C is final and returns A, C of weight 1,
  while A, B, C has weight -1.
\<close>

theorem find_shortest_path_negative_weight:
  "(case find_shortest_path abc_neg ''A'' ''C'' of
      Inr (Some rt, s') \<Rightarrow> r_path rt = [''A'', ''C'']
    | _ \<Rightarrow> False) \<and>
   st_path (graph abc_neg) ''A'' ''C'' [''A'', ''B'', ''C''] \<and>
   path_weight (graph abc_neg) (weight_function (weights abc_neg)) [''A'', ''B'', ''C'']
     < path_weight (graph abc_neg) (weight_function (weights abc_neg)) [''A'', ''C'']"
  by code_simp

text \<open>
  C1, amended. In every reachable state in which each edge of the effective graph has a
  non-negative scalar weight under the current objective weights, a path returned by
  \<^verbatim>\<open>find_shortest_path\<close> runs from the source to the target in the effective graph and
  its total weight, the sum over its edges of the weight given by
  \<open>weight_function_formula\<close>, is at most that of every such path.
\<close>

theorem find_shortest_path_minimal:
  assumes "reachable s" and "nonneg_weights s"
    and "find_shortest_path s a b = Inr (Some rt, s')"
  shows "st_path (graph s) a b (r_path rt) \<and>
         (\<forall>q. st_path (graph s) a b q \<longrightarrow>
            path_weight (graph s) (weight_function (weights s)) (r_path rt)
              \<le> path_weight (graph s) (weight_function (weights s)) q)"
proof -
  from assms(3) have "dijkstra_path (graph s) a b (weight_function (weights s)) = Inr (r_path rt)"
    by (auto simp: find_shortest_path_def Let_def split: if_splits option.splits sum.splits)
  moreover have "0 \<le> weight_function (weights s) u v d" if "graph_edge (graph s) u v = Some d" for u v d
    using assms(2) that by (rule nonneg_weights_edge)
  moreover have "dict_graph (graph s)"
    using assms(1) by (rule reachable_dict_graph)
  ultimately show ?thesis
    by (intro dijkstra_path_minimal)
qed

theorem find_shortest_path_minimal_witness:
  "reachable abc_sim \<and> nonneg_weights abc_sim \<and>
   (\<exists>rt s'. find_shortest_path abc_sim ''A'' ''C'' = Inr (Some rt, s') \<and>
      r_path rt = [''A'', ''C''] \<and>
      st_path (graph abc_sim) ''A'' ''C'' (r_path rt) \<and>
      st_path (graph abc_sim) ''A'' ''C'' [''A'', ''B'', ''C''] \<and>
      path_weight (graph abc_sim) (weight_function (weights abc_sim)) (r_path rt)
        \<le> path_weight (graph abc_sim) (weight_function (weights abc_sim)) [''A'', ''B'', ''C''])"
proof -
  have h1: "reachable abc_sim"
    using abc_sim_init by (rule reachable.init)
  have h2: "nonneg_weights abc_sim" by code_simp
  have "case find_shortest_path abc_sim ''A'' ''C'' of
          Inr (Some rt, s') \<Rightarrow> r_path rt = [''A'', ''C''] | _ \<Rightarrow> False"
    by code_simp
  then obtain rt s' where h3: "find_shortest_path abc_sim ''A'' ''C'' = Inr (Some rt, s')"
    and p: "r_path rt = [''A'', ''C'']"
    by (auto split: sum.splits option.splits)
  have q: "st_path (graph abc_sim) ''A'' ''C'' [''A'', ''B'', ''C'']" by code_simp
  from find_shortest_path_minimal [OF h1 h2 h3] q h1 h2 h3 p show ?thesis
    by blast
qed

end
